theory Spec2Isabelle
  imports Main
begin

section \<open>Errors\<close>

text \<open>
  Go errors are values. The collaborators (the transport \<open>doer\<close>, the page decode function,
  \<open>url.Parse\<close>) produce errors of their own, kept opaque as \<open>External\<close>; the two errors
  the pagination code creates itself are \<open>fmt.Errorf("could not parse page num: %w", err)\<close>
  around a \<open>strconv\<close> error, and \<open>errors.New("could not find last page")\<close>.
\<close>

datatype num_error = ErrSyntax | ErrRange

datatype err = External string | CouldNotParsePageNum num_error | CouldNotFindLastPage

section \<open>The Link header parser\<close>

subsection \<open>\<open>strconv.ParseInt(s, 10, 32)\<close>\<close>

text \<open>
  The standard library's \<open>ParseInt\<close> at base 10 and bit size 32: the empty string is a
  syntax error; one leading \<open>+\<close> or \<open>-\<close> is taken off; \<open>ParseUint\<close> then rejects the empty
  string, reads the bytes left to right, fails with a syntax error at the first byte that
  is not a decimal digit and with a range error as soon as the value passes \<open>2^32 - 1\<close>;
  the signed range \<open>-2^31 .. 2^31 - 1\<close> is checked last.
\<close>

definition digit_val :: "char \<Rightarrow> nat option" where
  "digit_val c =
     (let k = (of_char c :: nat) in if 48 \<le> k \<and> k \<le> 57 then Some (k - 48) else None)"

fun ParseUint_loop :: "nat \<Rightarrow> string \<Rightarrow> num_error + nat" where
  "ParseUint_loop n [] = Inr n"
| "ParseUint_loop n (c # cs) =
     (case digit_val c of
        None \<Rightarrow> Inl ErrSyntax
      | Some d \<Rightarrow>
          if n * 10 + d > 2 ^ 32 - 1 then Inl ErrRange
          else ParseUint_loop (n * 10 + d) cs)"

definition ParseUint :: "string \<Rightarrow> num_error + nat" where
  "ParseUint s = (if s = [] then Inl ErrSyntax else ParseUint_loop 0 s)"

definition ParseInt :: "string \<Rightarrow> num_error + int" where
  "ParseInt s =
     (case s of
        [] \<Rightarrow> Inl ErrSyntax
      | c # cs \<Rightarrow>
          let neg = (c = CHR ''-'');
              s' = (if c = CHR ''+'' \<or> c = CHR ''-'' then cs else s)
          in (case ParseUint s' of
                Inl e \<Rightarrow> Inl e
              | Inr un \<Rightarrow>
                  if \<not> neg \<and> un \<ge> 2 ^ 31 then Inl ErrRange
                  else if neg \<and> un > 2 ^ 31 then Inl ErrRange
                  else Inr (if neg then - int un else int un)))"

subsection \<open>The pattern \<open><(.*?)>; rel="(.*?)"\<close>\<close>

text \<open>
  \<open>resourceRegex.FindAllStringSubmatch(links, -1)\<close>: all non-overlapping matches, leftmost
  first, each with its two groups. A match starts at a \<open><\<close>; both groups are lazy, so the
  first group is the shortest run of non-newline bytes after which \<open>>; rel="\<close> and the rest
  of the pattern match, and the second group is the shortest run of non-newline bytes
  followed by a double quote. The search goes on after the end of a match, or at the next
  byte when no match starts here.
\<close>

definition dquote :: char where
  "dquote = CHR 0x22"

definition newline :: char where
  "newline = CHR 0x0A"

definition rel_sep :: string where
  "rel_sep = ''>; rel='' @ [dquote]"

fun until_quote :: "string \<Rightarrow> string \<Rightarrow> (string \<times> string) option" where
  "until_quote acc [] = None"
| "until_quote acc (c # cs) =
     (if c = dquote then Some (rev acc, cs)
      else if c = newline then None
      else until_quote (c # acc) cs)"

definition rel_here :: "string \<Rightarrow> (string \<times> string) option" where
  "rel_here t =
     (if take (length rel_sep) t = rel_sep then until_quote [] (drop (length rel_sep) t)
      else None)"

fun match_from :: "string \<Rightarrow> string \<Rightarrow> (string \<times> string \<times> string) option" where
  "match_from acc [] = None"
| "match_from acc (c # cs) =
     (case rel_here (c # cs) of
        Some (g2, rest) \<Rightarrow> Some (rev acc, g2, rest)
      | None \<Rightarrow> if c = newline then None else match_from (c # acc) cs)"

lemma until_quote_length: "until_quote acc t = Some (g, rest) \<Longrightarrow> length rest < length t"
  by (induction t arbitrary: acc) (fastforce split: if_splits)+

lemma rel_here_length: "rel_here t = Some (g, rest) \<Longrightarrow> length rest < length t"
  by (auto simp: rel_here_def split: if_splits dest!: until_quote_length)

lemma match_from_length: "match_from acc t = Some (g1, g2, rest) \<Longrightarrow> length rest < length t"
proof (induction t arbitrary: acc)
  case Nil
  then show ?case by simp
next
  case (Cons c cs)
  show ?case
  proof (cases "rel_here (c # cs)")
    case None
    with Cons.prems have "match_from (c # acc) cs = Some (g1, g2, rest)"
      by (simp split: if_splits)
    from Cons.IH [OF this] show ?thesis by simp
  next
    case (Some p)
    with Cons.prems have "rel_here (c # cs) = Some (g2, rest)"
      by (cases p) simp
    then show ?thesis by (rule rel_here_length)
  qed
qed

function FindAllStringSubmatch :: "string \<Rightarrow> (string \<times> string) list" where
  "FindAllStringSubmatch [] = []"
| "FindAllStringSubmatch (c # cs) =
     (if c = CHR ''<'' then
        (case match_from [] cs of
           Some (g1, g2, rest) \<Rightarrow> (g1, g2) # FindAllStringSubmatch rest
         | None \<Rightarrow> FindAllStringSubmatch cs)
      else FindAllStringSubmatch cs)"
  by pat_completeness auto
termination
  by (relation "measure length") (auto dest: match_from_length)

subsection \<open>\<open>newlink\<close> and \<open>newLinkedResource\<close>\<close>

text \<open>
  \<open>url.Parse\<close> and \<open>u.Query().Get("page")\<close> belong to Go's \<open>net/url\<close>; they are parameters
  of the model: \<open>url_parse\<close> gives an error or a URL value, \<open>query_page\<close> the value of the
  URL's \<open>page\<close> query parameter, which \<open>Get\<close> gives as the empty string when it is missing.
\<close>

record 'u link =
  url :: 'u
  page :: int

definition newlink :: "(string \<Rightarrow> err + 'u) \<Rightarrow> ('u \<Rightarrow> string) \<Rightarrow> string \<Rightarrow> err + 'u link" where
  "newlink url_parse query_page urlstr =
     (case url_parse urlstr of
        Inl e \<Rightarrow> Inl e
      | Inr u \<Rightarrow>
          (case ParseInt (query_page u) of
             Inl ne \<Rightarrow> Inl (CouldNotParsePageNum ne)
           | Inr p \<Rightarrow> Inr \<lparr>url = u, page = p\<rparr>))"

text \<open>
  \<open>linkedResource.links\<close> is a \<open>map[string]*link\<close>: a key is absent (\<open>None\<close>), or holds a
  pointer that is nil (\<open>Some None\<close>) or a link (\<open>Some (Some l)\<close>). The loop body
  \<open>resource.links[part[2]], err = newlink(part[1])\<close> stores the pointer \<open>newlink\<close> returned
  before \<open>err\<close> is tested, so a failing link leaves a nil pointer under its relation name.
\<close>

type_synonym 'u links = "string \<rightharpoonup> 'u link option"

fun links_loop ::
  "(string \<Rightarrow> err + 'u) \<Rightarrow> ('u \<Rightarrow> string) \<Rightarrow> 'u links \<Rightarrow> (string \<times> string) list
     \<Rightarrow> 'u links \<times> err option" where
  "links_loop url_parse query_page m [] = (m, None)"
| "links_loop url_parse query_page m ((urlstr, rel) # parts) =
     (case newlink url_parse query_page urlstr of
        Inl e \<Rightarrow> (m(rel \<mapsto> None), Some e)
      | Inr l \<Rightarrow> links_loop url_parse query_page (m(rel \<mapsto> Some l)) parts)"

definition newLinkedResource ::
  "(string \<Rightarrow> err + 'u) \<Rightarrow> ('u \<Rightarrow> string) \<Rightarrow> string \<Rightarrow> 'u links \<times> err option" where
  "newLinkedResource url_parse query_page header_link =
     links_loop url_parse query_page Map.empty (FindAllStringSubmatch header_link)"

subsection \<open>What the claims call a numeric page parameter\<close>

text \<open>
  The specification's "missing or non-numeric": \<open>Get\<close> gives the empty string for a
  missing parameter, and a numeric value is an optional sign followed by at least one
  decimal digit.
\<close>

definition is_digit :: "char \<Rightarrow> bool" where
  "is_digit c = (digit_val c \<noteq> None)"

definition numeric :: "string \<Rightarrow> bool" where
  "numeric s =
     (case s of
        [] \<Rightarrow> False
      | c # cs \<Rightarrow>
          let ds = (if c = CHR ''+'' \<or> c = CHR ''-'' then cs else s)
          in ds \<noteq> [] \<and> list_all is_digit ds)"

subsection \<open>A stand-in for \<open>net/url\<close>, for the concrete examples\<close>

text \<open>
  The examples need some URL library to run the parser on a real header. This one keeps a
  URL as its text and reads the query string between the first \<open>?\<close> and the fragment, split
  at \<open>&\<close>, each piece split at its first \<open>=\<close>; it does no unescaping, which the example
  URLs do not need.
\<close>

fun split_on :: "char \<Rightarrow> string \<Rightarrow> string \<Rightarrow> string list" where
  "split_on sep acc [] = [rev acc]"
| "split_on sep acc (c # cs) =
     (if c = sep then rev acc # split_on sep [] cs else split_on sep (c # acc) cs)"

fun first_value :: "string \<Rightarrow> string list \<Rightarrow> string" where
  "first_value key [] = []"
| "first_value key (p # ps) =
     (if takeWhile (\<lambda>c. c \<noteq> CHR ''='') p = key
      then drop 1 (dropWhile (\<lambda>c. c \<noteq> CHR ''='') p)
      else first_value key ps)"

definition plain_url_parse :: "string \<Rightarrow> err + string" where
  "plain_url_parse s = Inr s"

definition plain_query_page :: "string \<Rightarrow> string" where
  "plain_query_page u =
     first_value ''page''
       (split_on (CHR ''&'') []
          (takeWhile (\<lambda>c. c \<noteq> CHR ''#'') (drop 1 (dropWhile (\<lambda>c. c \<noteq> CHR ''?'') u))))"

definition link_value :: "string \<Rightarrow> string \<Rightarrow> string" where
  "link_value u r = ''<'' @ u @ rel_sep @ r @ [dquote]"

subsection \<open>Example headers\<close>

definition url_page_abc :: string where
  "url_page_abc = ''https://canvas.test/api/v1/folders?page=abc''"

definition url_page_3 :: string where
  "url_page_3 = ''https://canvas.test/api/v1/folders?page=3&per_page=10''"

definition url_page_2 :: string where
  "url_page_2 = ''https://canvas.test/api/v1/folders?page=2&per_page=10''"

definition url_page_1 :: string where
  "url_page_1 = ''https://canvas.test/api/v1/folders?page=1&per_page=10''"

definition url_no_page :: string where
  "url_no_page = ''https://canvas.test/api/v1/folders?per_page=10''"

definition header_bad_last :: string where
  "header_bad_last = link_value url_page_abc ''last''"

definition header_last_twice :: string where
  "header_last_twice = link_value url_page_2 ''last'' @ '', '' @ link_value url_no_page ''last''"

definition header_next_bad_first :: string where
  "header_next_bad_first =
     link_value url_page_2 ''next'' @ '', '' @ link_value url_no_page ''last'' @ '', ''
       @ link_value url_page_1 ''first''"

section \<open>The paginated fetch engine\<close>

subsection \<open>The collaborators and the first request\<close>

text \<open>
  A response is its \<open>Link\<close> header value (\<open>resp.Header.Get("Link")\<close>) and its body.
  A \<open>paginated\<close> value is modelled by what it calls: \<open>do_get p k\<close> is what
  \<open>get(p.do, p.path, q)\<close> gives when \<open>q\<close> asks for page \<open>k\<close> (the page size and the
  caller's query are fixed for one paginated value), \<open>init\<close> is the page decode function
  \<open>p.init\<close>, whose list may hold nil interface values (\<open>None\<close>), and \<open>parse_url\<close>,
  \<open>page_param\<close> are the URL library. \<open>reader\<close> says which function of the package reads
  the two channels, and \<open>handle\<close> what the error handler given to \<open>onlyFiles\<close> and
  \<open>onlyFolders\<close> does with an error.
\<close>

record response =
  link_header :: string
  body :: string

datatype reader = Collect | Adapter | Drain

datatype effect = Ignores | Cancels | Panics

record ('a, 'u) paginated =
  do_get :: "int \<Rightarrow> err + response"
  init :: "int \<Rightarrow> string \<Rightarrow> err + 'a option list"
  parse_url :: "string \<Rightarrow> err + 'u"
  page_param :: "'u \<Rightarrow> string"
  reader :: reader
  handle :: "err \<Rightarrow> effect"

text \<open>
  \<open>firstReq\<close>: the request for page 1, the Link header parser, the lookup of \<open>last\<close>.
  After a parse without error every stored pointer is a link; reading \<open>page\<close> through a
  nil pointer would be a panic.
\<close>

datatype first = FirstErr err | FirstOk int response | FirstPanic

definition firstReq :: "('a, 'u) paginated \<Rightarrow> first" where
  "firstReq p =
     (case do_get p 1 of
        Inl e \<Rightarrow> FirstErr e
      | Inr resp \<Rightarrow>
          (case newLinkedResource (parse_url p) (page_param p) (link_header resp) of
             (pages, Some e) \<Rightarrow> FirstErr e
           | (pages, None) \<Rightarrow>
               (case pages ''last'' of
                  None \<Rightarrow> FirstErr CouldNotFindLastPage
                | Some None \<Rightarrow> FirstPanic
                | Some (Some lastpage) \<Rightarrow> FirstOk (page lastpage) resp)))"

text \<open>
  What the goroutine of page \<open>k\<close> computes before it sends anything: the goroutine of
  page 1 decodes the body of the first response, which is \<open>do_get p 1\<close>; the goroutine of
  a later page makes its own request and decodes that body.
\<close>

definition page_outcome :: "('a, 'u) paginated \<Rightarrow> nat \<Rightarrow> err + 'a option list" where
  "page_outcome p k =
     (case do_get p (int k) of
        Inl e \<Rightarrow> Inl e
      | Inr resp \<Rightarrow> init p (int k) (body resp))"

subsection \<open>Goroutines and channels as a transition system\<close>

text \<open>
  The goroutines of one call: one job per page, the closer (\<open>p.wg.Wait()\<close>, then the two
  \<open>close\<close> calls) and the reader of the channels. Both channels are unbuffered, so a send
  is one step together with the receive that takes it.

  A job is \<open>Pending\<close> before its request and decode, \<open>Failing e\<close> when it stands at
  \<open>p.errs <- err\<close>, \<open>Sending os\<close> when it stands in its \<open>range\<close> loop with \<open>os\<close> left to
  send, \<open>Returning\<close> after its error was taken, and \<open>Finished\<close> once the deferred
  \<open>p.wg.Done()\<close> has run.
\<close>

datatype 'a job = Pending | Failing err | Sending "'a option list" | Returning | Finished

datatype closer = Absent | Waiting | ClosedObjects | ClosedBoth

text \<open>
  The reader. \<open>InChannel e\<close>: the caller is still inside \<open>channel()\<close>, at \<open>p.errs <- err\<close>
  after \<open>firstReq\<close> failed with \<open>e\<close>. \<open>Collecting c\<close> and \<open>Collected r e\<close>: the loop of
  \<open>collect\<close> with its collection, and its return values (a nil slice is \<open>None\<close>).
  \<open>Selecting q\<close>, \<open>Forwarding f q\<close>, \<open>HandlerBlocked\<close>, \<open>AdapterDone\<close>: the goroutine of
  \<open>onlyFiles\<close> and \<open>onlyFolders\<close> at its \<open>select\<close>, at \<open>results <- f\<close>, inside a handler
  that stands at \<open>quit <- 1\<close> with the buffer full, and returned with \<open>results\<close> closed;
  \<open>q\<close> is the number of values in the buffer of \<open>quit\<close>, whose capacity is 1.
  \<open>Draining\<close>: a reader that takes whatever is offered on either channel and never
  stops; it stands for the code the engine's guarantees are stated for, such as a caller
  of \<open>files\<close> or \<open>folders\<close> that reads both channels it was given.
\<close>

datatype 'a consumer =
    InChannel err
  | Collecting "'a list"
  | Collected "'a list option" "err option"
  | Selecting nat
  | Forwarding 'a nat
  | HandlerBlocked
  | AdapterDone
  | Draining

text \<open>
  \<open>jobs ! (k - 1)\<close> is the job of page \<open>k\<close>; \<open>wg\<close> is the counter of the wait group;
  \<open>results\<close> lists what was sent on the adapter's typed channel; \<open>delivered\<close> and
  \<open>errors\<close> record, with the page of the sending job, what has been received from
  \<open>p.objects\<close> and \<open>p.errs\<close>; \<open>gets\<close> counts the calls of the transport; \<open>panicked\<close> is
  set when a goroutine panics, which ends the program.
\<close>

record 'a state =
  jobs :: "'a job list"
  wg :: int
  closer :: closer
  consumer :: "'a consumer"
  results :: "'a list"
  delivered :: "(nat \<times> 'a option) list"
  errors :: "(nat \<times> err) list"
  gets :: nat
  panicked :: bool

definition start :: "reader \<Rightarrow> 'a consumer" where
  "start r = (case r of Collect \<Rightarrow> Collecting [] | Adapter \<Rightarrow> Selecting 0 | Drain \<Rightarrow> Draining)"

text \<open>
  \<open>channel\<close>: the state when \<open>channel()\<close> has started its goroutines and returned to the
  reader, or stands at its first send; after that the goroutines run in any order.
  \<open>p.wg.Add(n)\<close> panics for a negative \<open>n\<close>; the goroutine of page 1 is started whatever
  \<open>n\<close> is, the loop starts those of pages \<open>2..n\<close>.
\<close>

definition channel :: "('a, 'u) paginated \<Rightarrow> 'a state" where
  "channel p =
     (let s0 = \<lparr>jobs = [], wg = 0, closer = Absent, consumer = start (reader p), results = [],
                delivered = [], errors = [], gets = 1, panicked = False\<rparr>
      in case firstReq p of
           FirstErr e \<Rightarrow> s0\<lparr>consumer := InChannel e\<rparr>
         | FirstPanic \<Rightarrow> s0\<lparr>panicked := True\<rparr>
         | FirstOk n resp \<Rightarrow>
             if n < 0 then s0\<lparr>panicked := True\<rparr>
             else s0\<lparr>jobs := replicate (max 1 (nat n)) Pending, wg := n, closer := Waiting\<rparr>)"

definition objects_closed :: "'a state \<Rightarrow> bool" where
  "objects_closed s = (closer s = ClosedObjects \<or> closer s = ClosedBoth)"

definition errs_closed :: "'a state \<Rightarrow> bool" where
  "errs_closed s = (closer s = ClosedBoth)"

definition job_at :: "'a state \<Rightarrow> nat \<Rightarrow> 'a job option" where
  "job_at s k = (if 1 \<le> k \<and> k \<le> length (jobs s) then Some (jobs s ! (k - 1)) else None)"

definition set_job :: "nat \<Rightarrow> 'a job \<Rightarrow> 'a state \<Rightarrow> 'a state" where
  "set_job k j s = s\<lparr>jobs := (jobs s)[k - 1 := j]\<rparr>"

subsection \<open>What the reader does with a received value\<close>

text \<open>
  \<open>recv_obj\<close>: the branch \<open>case obj := <-p.objects\<close> of \<open>collect\<close>, and \<open>case f := <-ch\<close> of
  the adapters; the result is \<open>None\<close> when the reader is not receiving. A receive from the
  closed channel gives nil and takes the same branch.
\<close>

fun recv_obj :: "'a option \<Rightarrow> 'a consumer \<Rightarrow> 'a consumer option" where
  "recv_obj None (Collecting c) = Some (Collected (Some c) None)"
| "recv_obj (Some x) (Collecting c) = Some (Collecting (c @ [x]))"
| "recv_obj None (Selecting q) = Some AdapterDone"
| "recv_obj (Some x) (Selecting q) = Some (Forwarding x q)"
| "recv_obj ob Draining = Some Draining"
| "recv_obj ob c = None"

text \<open>
  \<open>recv_err\<close>: the branch \<open>case err := <-p.errs\<close> for an error a job sent, which is never
  nil. \<open>collect\<close> returns it. The adapters call the handler: one that sends on \<open>quit\<close>
  fills the buffer, or blocks for ever when the buffer is full; \<open>defaultErrorHandler\<close>
  sends, closes \<open>quit\<close> and panics. The second component says whether the program
  panicked.
\<close>

fun recv_err :: "(err \<Rightarrow> effect) \<Rightarrow> err \<Rightarrow> 'a consumer \<Rightarrow> ('a consumer \<times> bool) option" where
  "recv_err h e (Collecting c) = Some (Collected None (Some e), False)"
| "recv_err h e (Selecting q) =
     (case h e of
        Ignores \<Rightarrow> Some (Selecting q, False)
      | Cancels \<Rightarrow> Some (if q < 1 then Selecting (q + 1) else HandlerBlocked, False)
      | Panics \<Rightarrow> Some (if q < 1 then (Selecting (q + 1), True) else (HandlerBlocked, False)))"
| "recv_err h e Draining = Some (Draining, False)"
| "recv_err h e c = None"

definition receiving :: "'a consumer \<Rightarrow> bool" where
  "receiving c = (case c of Collecting _ \<Rightarrow> True | Selecting _ \<Rightarrow> True | Draining \<Rightarrow> True
                  | _ \<Rightarrow> False)"

subsection \<open>The steps\<close>

datatype action =
    FirstErrSend
  | Fetch nat
  | SendObj nat
  | SendErr nat
  | Exit nat
  | CloseObjects
  | CloseErrs
  | RecvObjClosed
  | RecvErrClosed
  | RecvQuit
  | Deliver

text \<open>
  \<open>channel()\<close> after a failed \<open>firstReq\<close>: \<open>p.errs <- err\<close>, then both \<open>close\<close> calls and
  the return to the caller, which only then starts to read. The send needs a goroutine
  that is receiving from \<open>p.errs\<close>; the only goroutine is the caller itself.
\<close>

definition first_err_send :: "('a, 'u) paginated \<Rightarrow> 'a state \<Rightarrow> 'a state option" where
  "first_err_send p s =
     (case consumer s of
        InChannel e \<Rightarrow>
          if receiving (consumer s)
          then Some (s\<lparr>closer := ClosedBoth, consumer := start (reader p),
                       errors := errors s @ [(0, e)]\<rparr>)
          else None
      | _ \<Rightarrow> None)"

text \<open>The request (for a page after the first) and the decode of page \<open>k\<close>.\<close>

definition fetch :: "('a, 'u) paginated \<Rightarrow> nat \<Rightarrow> 'a state \<Rightarrow> 'a state option" where
  "fetch p k s =
     (case job_at s k of
        Some Pending \<Rightarrow>
          Some (set_job k (case page_outcome p k of Inl e \<Rightarrow> Failing e | Inr os \<Rightarrow> Sending os)
                  (s\<lparr>gets := gets s + (if k = 1 then 0 else 1)\<rparr>))
      | _ \<Rightarrow> None)"

text \<open>\<open>p.objects <- o\<close>: a panic when the channel is closed, else a step with the reader.\<close>

definition send_obj :: "nat \<Rightarrow> 'a state \<Rightarrow> 'a state option" where
  "send_obj k s =
     (case job_at s k of
        Some (Sending (ob # os)) \<Rightarrow>
          if objects_closed s then Some (s\<lparr>panicked := True\<rparr>)
          else (case recv_obj ob (consumer s) of
                  None \<Rightarrow> None
                | Some c \<Rightarrow>
                    Some (set_job k (Sending os)
                            (s\<lparr>consumer := c, delivered := delivered s @ [(k, ob)]\<rparr>)))
      | _ \<Rightarrow> None)"

text \<open>\<open>p.errs <- err\<close> of a job, and \<open>return\<close>.\<close>

definition send_err :: "('a, 'u) paginated \<Rightarrow> nat \<Rightarrow> 'a state \<Rightarrow> 'a state option" where
  "send_err p k s =
     (case job_at s k of
        Some (Failing e) \<Rightarrow>
          if errs_closed s then Some (s\<lparr>panicked := True\<rparr>)
          else (case recv_err (handle p) e (consumer s) of
                  None \<Rightarrow> None
                | Some (c, crash) \<Rightarrow>
                    Some (set_job k Returning
                            (s\<lparr>consumer := c, errors := errors s @ [(k, e)],
                               panicked := crash\<rparr>)))
      | _ \<Rightarrow> None)"

text \<open>
  The end of a job: its loop is over or its error was taken, and the deferred
  \<open>p.wg.Done()\<close> runs, which panics when the counter would become negative.
\<close>

definition exit_job :: "nat \<Rightarrow> 'a state \<Rightarrow> 'a state option" where
  "exit_job k s =
     (case job_at s k of
        Some j \<Rightarrow>
          if j = Sending [] \<or> j = Returning then
            (if wg s - 1 < 0 then Some (s\<lparr>panicked := True\<rparr>)
             else Some (set_job k Finished (s\<lparr>wg := wg s - 1\<rparr>)))
          else None
      | None \<Rightarrow> None)"

text \<open>The closer: \<open>p.wg.Wait()\<close> returns when the counter is zero; then the two closes.\<close>

definition close_objects :: "'a state \<Rightarrow> 'a state option" where
  "close_objects s =
     (if closer s = Waiting \<and> wg s = 0 then Some (s\<lparr>closer := ClosedObjects\<rparr>) else None)"

definition close_errs :: "'a state \<Rightarrow> 'a state option" where
  "close_errs s =
     (if closer s = ClosedObjects then Some (s\<lparr>closer := ClosedBoth\<rparr>) else None)"

text \<open>
  Receives from a closed channel give nil at once: from \<open>p.objects\<close> the reader takes its
  nil branch; from \<open>p.errs\<close> the test \<open>err != nil\<close> fails and the loop goes round.
\<close>

definition recv_obj_closed :: "'a state \<Rightarrow> 'a state option" where
  "recv_obj_closed s =
     (if objects_closed s
      then (case recv_obj None (consumer s) of
              None \<Rightarrow> None
            | Some c \<Rightarrow> Some (s\<lparr>consumer := c\<rparr>))
      else None)"

definition recv_err_closed :: "'a state \<Rightarrow> 'a state option" where
  "recv_err_closed s = (if errs_closed s \<and> receiving (consumer s) then Some s else None)"

text \<open>The adapter: \<open>case <-quit: return\<close> with the deferred \<open>close(results)\<close>, and the
  send \<open>results <- f\<close> taken by the reader of the typed channel.\<close>

definition recv_quit :: "'a state \<Rightarrow> 'a state option" where
  "recv_quit s =
     (case consumer s of
        Selecting q \<Rightarrow> if q > 0 then Some (s\<lparr>consumer := AdapterDone\<rparr>) else None
      | _ \<Rightarrow> None)"

definition deliver :: "'a state \<Rightarrow> 'a state option" where
  "deliver s =
     (case consumer s of
        Forwarding f q \<Rightarrow> Some (s\<lparr>consumer := Selecting q, results := results s @ [f]\<rparr>)
      | _ \<Rightarrow> None)"

text \<open>One step of the program: no goroutine runs after a panic.\<close>

definition exec :: "('a, 'u) paginated \<Rightarrow> action \<Rightarrow> 'a state \<Rightarrow> 'a state option" where
  "exec p a s =
     (if panicked s then None
      else case a of
             FirstErrSend \<Rightarrow> first_err_send p s
           | Fetch k \<Rightarrow> fetch p k s
           | SendObj k \<Rightarrow> send_obj k s
           | SendErr k \<Rightarrow> send_err p k s
           | Exit k \<Rightarrow> exit_job k s
           | CloseObjects \<Rightarrow> close_objects s
           | CloseErrs \<Rightarrow> close_errs s
           | RecvObjClosed \<Rightarrow> recv_obj_closed s
           | RecvErrClosed \<Rightarrow> recv_err_closed s
           | RecvQuit \<Rightarrow> recv_quit s
           | Deliver \<Rightarrow> deliver s)"

text \<open>A run follows a schedule, the list of the steps taken; it is \<open>None\<close> when the
  schedule asks for a step that cannot be taken.\<close>

fun run :: "('a, 'u) paginated \<Rightarrow> action list \<Rightarrow> 'a state \<Rightarrow> 'a state option" where
  "run p [] s = Some s"
| "run p (a # as) s = Option.bind (exec p a s) (run p as)"

text \<open>The steps that can be taken in a state; none is left when the program is stuck.\<close>

definition candidates :: "'a state \<Rightarrow> action list" where
  "candidates s =
     [FirstErrSend, CloseObjects, CloseErrs, RecvObjClosed, RecvErrClosed, RecvQuit, Deliver]
     @ concat (map (\<lambda>k. [Fetch k, SendObj k, SendErr k, Exit k]) [1 ..< Suc (length (jobs s))])"

definition enabled :: "('a, 'u) paginated \<Rightarrow> 'a state \<Rightarrow> action list" where
  "enabled p s = filter (\<lambda>a. exec p a s \<noteq> None) (candidates s)"

subsection \<open>Invariants of the engine\<close>

text \<open>
  \<open>unfinished\<close> counts the jobs whose \<open>p.wg.Done()\<close> has not run. \<open>from_page k\<close> picks
  from a record of receives what the job of page \<open>k\<close> sent. \<open>consistent\<close> relates the state
  of a job to what it computed and to what has been received from it so far.
\<close>

definition unfinished :: "'a state \<Rightarrow> nat" where
  "unfinished s = length (filter (\<lambda>j. j \<noteq> Finished) (jobs s))"

definition from_page :: "nat \<Rightarrow> (nat \<times> 'x) list \<Rightarrow> 'x list" where
  "from_page k xs = map snd (filter (\<lambda>x. fst x = k) xs)"

fun consistent :: "'a job \<Rightarrow> err + 'a option list \<Rightarrow> 'a option list \<Rightarrow> err list \<Rightarrow> bool" where
  "consistent Pending out ds es = (ds = [] \<and> es = [])"
| "consistent (Failing e) out ds es = (out = Inl e \<and> ds = [] \<and> es = [])"
| "consistent (Sending os) out ds es = (out = Inr (ds @ os) \<and> es = [])"
| "consistent Returning out ds es = (ds = [] \<and> (case out of Inl e \<Rightarrow> es = [e] | Inr os \<Rightarrow> False))"
| "consistent Finished out ds es =
     (case out of Inl e \<Rightarrow> ds = [] \<and> es = [e] | Inr os \<Rightarrow> ds = os \<and> es = [])"

definition job_ok :: "('a, 'u) paginated \<Rightarrow> 'a state \<Rightarrow> nat \<Rightarrow> bool" where
  "job_ok p s k =
     consistent (jobs s ! (k - 1)) (page_outcome p k)
       (from_page k (delivered s)) (from_page k (errors s))"

definition engine_inv :: "('a, 'u) paginated \<Rightarrow> 'a state \<Rightarrow> bool" where
  "engine_inv p s \<longleftrightarrow>
     closer s \<noteq> Absent
     \<and> wg s = int (unfinished s)
     \<and> (closer s \<noteq> Waiting \<longrightarrow> unfinished s = 0)
     \<and> (\<forall>k. 1 \<le> k \<and> k \<le> length (jobs s) \<longrightarrow> job_ok p s k)
     \<and> (\<forall>x \<in> set (delivered s). 1 \<le> fst x \<and> fst x \<le> length (jobs s))
     \<and> (\<forall>x \<in> set (errors s). 1 \<le> fst x \<and> fst x \<le> length (jobs s))
     \<and> (\<forall>e. consumer s \<noteq> InChannel e)"

subsection \<open>What \<open>collect\<close> holds and returns\<close>

text \<open>
  The invariant of \<open>collect\<close>: while it loops no error has been received and its collection
  is what has been received from \<open>p.objects\<close>; when it has returned an error, that error
  is the only one received; when it has returned its collection, no error was received and
  the last receive was a nil, from the closed channel or from a job.
\<close>

definition collect_inv :: "'a state \<Rightarrow> bool" where
  "collect_inv s =
     (case consumer s of
        Collecting c \<Rightarrow> errors s = [] \<and> map snd (delivered s) = map Some c
      | Collected r eo \<Rightarrow>
          (case eo of
             Some e \<Rightarrow> r = None \<and> map snd (errors s) = [e]
           | None \<Rightarrow>
               errors s = []
               \<and> (case r of
                    None \<Rightarrow> False
                  | Some c \<Rightarrow>
                      (objects_closed s \<and> map snd (delivered s) = map Some c)
                      \<or> map snd (delivered s) = map Some c @ [None]))
      | _ \<Rightarrow> False)"

subsection \<open>A bound on the steps that are left\<close>

text \<open>
  A measure that every step lowers, except the receive of a nil from a closed channel by
  a reader that goes on reading: twice the objects a job has yet to send, and a few units
  for the request, the error send, the return, the two closes and the reader's own steps.
\<close>

fun job_weight :: "('a, 'u) paginated \<Rightarrow> nat \<Rightarrow> 'a job \<Rightarrow> nat" where
  "job_weight p k Pending =
     3 + 2 * (case page_outcome p k of Inl e \<Rightarrow> 0 | Inr os \<Rightarrow> length os)"
| "job_weight p k (Failing e) = 2"
| "job_weight p k (Sending os) = 1 + 2 * length os"
| "job_weight p k Returning = 1"
| "job_weight p k Finished = 0"

fun weights :: "('a, 'u) paginated \<Rightarrow> nat \<Rightarrow> 'a job list \<Rightarrow> nat" where
  "weights p k [] = 0"
| "weights p k (j # js) = job_weight p k j + weights p (Suc k) js"

fun closer_weight :: "closer \<Rightarrow> nat" where
  "closer_weight Absent = 0"
| "closer_weight Waiting = 2"
| "closer_weight ClosedObjects = 1"
| "closer_weight ClosedBoth = 0"

fun consumer_weight :: "'a consumer \<Rightarrow> nat" where
  "consumer_weight (Collecting c) = 1"
| "consumer_weight (Selecting q) = (if q = 0 then 3 else 1)"
| "consumer_weight (Forwarding f q) = (if q = 0 then 4 else 2)"
| "consumer_weight c = 0"

definition remaining :: "('a, 'u) paginated \<Rightarrow> 'a state \<Rightarrow> nat" where
  "remaining p s =
     (if panicked s then 0
      else 1 + weights p 1 (jobs s) + closer_weight (closer s) + consumer_weight (consumer s))"

subsection \<open>What the specification counts\<close>

text \<open>
  \<open>decoded p k\<close> is the list the decode function returned for page \<open>k\<close> (empty when the
  page failed); \<open>pages_decoded p n\<close> says that the request and the decode succeed on every
  page \<open>1..n\<close>; \<open>no_nil_objects p n\<close> that no decoded list holds a nil object.
\<close>

definition decoded :: "('a, 'u) paginated \<Rightarrow> nat \<Rightarrow> 'a option list" where
  "decoded p k = (case page_outcome p k of Inl e \<Rightarrow> [] | Inr os \<Rightarrow> os)"

definition pages_decoded :: "('a, 'u) paginated \<Rightarrow> nat \<Rightarrow> bool" where
  "pages_decoded p n =
     list_all (\<lambda>k. case page_outcome p k of Inl e \<Rightarrow> False | Inr os \<Rightarrow> True) [1 ..< Suc n]"

definition no_nil_objects :: "('a, 'u) paginated \<Rightarrow> nat \<Rightarrow> bool" where
  "no_nil_objects p n = list_all (\<lambda>k. None \<notin> set (decoded p k)) [1 ..< Suc n]"

subsection \<open>Example calls\<close>

text \<open>
  A transport stub that answers every page with the same Link header, whose only link is
  \<open>last\<close>, and decode functions over numbers: three pages of two objects each; two pages
  of which the first holds a nil object; two pages of which the first does not decode.
\<close>

definition stub_get :: "string \<Rightarrow> int \<Rightarrow> err + response" where
  "stub_get last_url k = Inr \<lparr>link_header = link_value last_url ''last'', body = ''[]''\<rparr>"

definition three_pages :: "(nat, string) paginated" where
  "three_pages =
     \<lparr>do_get = stub_get url_page_3,
      init = (\<lambda>k b. Inr [Some (nat (2 * k - 1)), Some (nat (2 * k))]),
      parse_url = plain_url_parse, page_param = plain_query_page,
      reader = Collect, handle = (\<lambda>e. Panics)\<rparr>"

definition nil_pages :: "(nat, string) paginated" where
  "nil_pages =
     \<lparr>do_get = stub_get url_page_2,
      init = (\<lambda>k b. if k = 1 then Inr [Some 1, None, Some 2] else Inr [Some 3]),
      parse_url = plain_url_parse, page_param = plain_query_page,
      reader = Collect, handle = (\<lambda>e. Panics)\<rparr>"

definition nil_pages_final :: "nat state" where
  "nil_pages_final =
     \<lparr>jobs = [Sending [Some 2], Sending [Some 3]], wg = 2, closer = Waiting,
      consumer = Collected (Some [1]) None, results = [],
      delivered = [(1, Some 1), (1, None)],
      errors = [], gets = 2, panicked = False\<rparr>"

definition failing_pages :: "(nat, string) paginated" where
  "failing_pages =
     \<lparr>do_get = stub_get url_page_2,
      init = (\<lambda>k b. if k = 1 then Inl (External ''unexpected end of JSON input'')
                     else Inr [Some 7]),
      parse_url = plain_url_parse, page_param = plain_query_page,
      reader = Collect, handle = (\<lambda>e. Panics)\<rparr>"

definition failing_pages_final :: "nat state" where
  "failing_pages_final =
     \<lparr>jobs = [Finished, Sending [Some 7]], wg = 1, closer = Waiting,
      consumer = Collected None (Some (External ''unexpected end of JSON input'')),
      results = [], delivered = [],
      errors = [(1, External ''unexpected end of JSON input'')], gets = 2, panicked = False\<rparr>"

definition three_pages_schedule :: "action list" where
  "three_pages_schedule =
     [Fetch 1, Fetch 2, SendObj 2, SendObj 1, Fetch 3, SendObj 3, SendObj 3, Exit 3,
      SendObj 2, Exit 2, SendObj 1, Exit 1, CloseObjects, CloseErrs, RecvErrClosed,
      RecvObjClosed]"

definition three_pages_final :: "nat state" where
  "three_pages_final =
     \<lparr>jobs = [Finished, Finished, Finished], wg = 0, closer = ClosedBoth,
      consumer = Collected (Some [3, 1, 5, 6, 4, 2]) None, results = [],
      delivered = [(2, Some 3), (1, Some 1), (3, Some 5), (3, Some 6), (2, Some 4), (1, Some 2)],
      errors = [], gets = 3, panicked = False\<rparr>"


text \<open>
  Two pages read by a caller that takes everything from both channels: page 1 decodes to
  two objects, the request for page 2 fails. And two calls whose first request fails: one
  whose Link header has a \<open>next\<close> link only, one whose transport refuses the connection.
\<close>

definition drained_pages :: "(nat, string) paginated" where
  "drained_pages =
     \<lparr>do_get = (\<lambda>k. if k = 2 then Inl (External ''connection reset'')
                     else stub_get url_page_2 k),
      init = (\<lambda>k b. Inr [Some 1, Some 2]),
      parse_url = plain_url_parse, page_param = plain_query_page,
      reader = Drain, handle = (\<lambda>e. Panics)\<rparr>"

definition drained_pages_schedule :: "action list" where
  "drained_pages_schedule =
     [Fetch 1, Fetch 2, SendErr 2, SendObj 1, Exit 2, SendObj 1, Exit 1, CloseObjects,
      CloseErrs]"

definition drained_pages_final :: "nat state" where
  "drained_pages_final =
     \<lparr>jobs = [Finished, Finished], wg = 0, closer = ClosedBoth, consumer = Draining,
      results = [], delivered = [(1, Some 1), (1, Some 2)],
      errors = [(2, External ''connection reset'')], gets = 2, panicked = False\<rparr>"

definition no_last_page :: "(nat, string) paginated" where
  "no_last_page =
     \<lparr>do_get = (\<lambda>k. Inr \<lparr>link_header = link_value url_page_2 ''next'', body = ''[]''\<rparr>),
      init = (\<lambda>k b. Inr [Some 1, Some 2]),
      parse_url = plain_url_parse, page_param = plain_query_page,
      reader = Collect, handle = (\<lambda>e. Panics)\<rparr>"

definition refused :: "(nat, string) paginated" where
  "refused =
     \<lparr>do_get = (\<lambda>k. Inl (External ''connection refused'')),
      init = (\<lambda>k b. Inr [Some 1, Some 2]),
      parse_url = plain_url_parse, page_param = plain_query_page,
      reader = Collect, handle = (\<lambda>e. Panics)\<rparr>"

definition blocked_in_channel :: "err \<Rightarrow> nat state" where
  "blocked_in_channel e =
     \<lparr>jobs = [], wg = 0, closer = Absent, consumer = InChannel e, results = [],
      delivered = [], errors = [], gets = 1, panicked = False\<rparr>"







subsection \<open>The adapters\<close>


section \<open>Properties of the Link header parser\<close>

lemma ParseUint_loop_digits: "ParseUint_loop n s = Inr m \<Longrightarrow> list_all is_digit s"
  by (induction s arbitrary: n) (auto simp: is_digit_def split: option.splits if_splits)

lemma ParseUint_digits: "ParseUint s = Inr m \<Longrightarrow> s \<noteq> [] \<and> list_all is_digit s"
  by (auto simp: ParseUint_def split: if_splits dest: ParseUint_loop_digits)

lemma ParseInt_numeric:
  assumes "ParseInt s = Inr p"
  shows "numeric s"
proof (cases s)
  case Nil
  with assms show ?thesis by (simp add: ParseInt_def)
next
  case (Cons c cs)
  define s' where "s' = (if c = CHR ''+'' \<or> c = CHR ''-'' then cs else s)"
  obtain un where "ParseUint s' = Inr un"
  proof (cases "ParseUint s'")
    case (Inl e)
    with assms Cons show ?thesis
      unfolding ParseInt_def s'_def by (simp add: Let_def)
  next
    case (Inr un)
    then show ?thesis by (rule that)
  qed
  then have "s' \<noteq> [] \<and> list_all is_digit s'" by (rule ParseUint_digits)
  then show ?thesis
    unfolding numeric_def Let_def s'_def Cons by simp
qed

lemma newlink_not_numeric:
  "url_parse urlstr = Inr u \<Longrightarrow> \<not> numeric (query_page u) \<Longrightarrow>
   \<exists>ne. newlink url_parse query_page urlstr = Inl (CouldNotParsePageNum ne)"
  by (auto simp: newlink_def split: sum.splits dest: ParseInt_numeric)

lemma newlink_page:
  "newlink url_parse query_page urlstr = Inr l \<Longrightarrow> ParseInt (query_page (url l)) = Inr (page l)"
  by (auto simp: newlink_def split: sum.splits)

lemma links_loop_fails:
  "(urlstr, rel) \<in> set parts \<Longrightarrow> newlink url_parse query_page urlstr = Inl e \<Longrightarrow>
   \<exists>e'. snd (links_loop url_parse query_page m parts) = Some e'"
  by (induction parts arbitrary: m) (auto split: sum.splits)

lemma links_loop_pages:
  "\<forall>r l. m r = Some (Some l) \<longrightarrow> ParseInt (query_page (url l)) = Inr (page l) \<Longrightarrow>
   fst (links_loop url_parse query_page m parts) r = Some (Some l) \<Longrightarrow>
   ParseInt (query_page (url l)) = Inr (page l)"
proof (induction parts arbitrary: m)
  case Nil
  then show ?case by simp
next
  case (Cons p parts)
  obtain u' r' where p: "p = (u', r')" by (cases p)
  show ?case
  proof (cases "newlink url_parse query_page u'")
    case (Inl e)
    with Cons.prems p show ?thesis by (auto split: if_splits)
  next
    case (Inr l')
    have inv: "\<forall>r l. (m(r' \<mapsto> Some l')) r = Some (Some l) \<longrightarrow>
            ParseInt (query_page (url l)) = Inr (page l)"
      using Cons.prems(1) newlink_page [OF Inr] by auto
    have step: "fst (links_loop url_parse query_page (m(r' \<mapsto> Some l')) parts) r = Some (Some l)"
      using Cons.prems(2) p Inr by simp
    from inv step show ?thesis by (rule Cons.IH)
  qed
qed

lemma links_loop_append_fail:
  "list_all (\<lambda>(u, r). \<exists>l. newlink url_parse query_page u = Inr l) pre \<Longrightarrow>
   newlink url_parse query_page urlstr = Inl e \<Longrightarrow>
   links_loop url_parse query_page m (pre @ (urlstr, rel) # post) =
     ((fst (links_loop url_parse query_page m pre))(rel \<mapsto> None), Some e)"
  by (induction pre arbitrary: m) auto

lemma links_loop_ok_lookup:
  "list_all (\<lambda>(u, r). \<exists>l. newlink url_parse query_page u = Inr l) pre \<Longrightarrow>
   (r \<notin> snd ` set pre \<and> fst (links_loop url_parse query_page m pre) r = m r)
   \<or> (\<exists>u l. (u, r) \<in> set pre \<and> newlink url_parse query_page u = Inr l
         \<and> fst (links_loop url_parse query_page m pre) r = Some (Some l))"
proof (induction pre arbitrary: m)
  case Nil
  then show ?case by simp
next
  case (Cons p pre)
  obtain u' r' where p: "p = (u', r')" by (cases p)
  from Cons.prems p obtain l' where l': "newlink url_parse query_page u' = Inr l'"
    and rest: "list_all (\<lambda>(u, r). \<exists>l. newlink url_parse query_page u = Inr l) pre"
    by auto
  from Cons.IH [OF rest, of "m(r' \<mapsto> Some l')"] show ?case
  proof
    assume a: "r \<notin> snd ` set pre \<and>
      fst (links_loop url_parse query_page (m(r' \<mapsto> Some l')) pre) r = (m(r' \<mapsto> Some l')) r"
    show ?thesis
    proof (cases "r = r'")
      case True
      with a p l' show ?thesis by auto
    next
      case False
      with a p l' show ?thesis by auto
    qed
  next
    assume "\<exists>u l. (u, r) \<in> set pre \<and> newlink url_parse query_page u = Inr l \<and>
      fst (links_loop url_parse query_page (m(r' \<mapsto> Some l')) pre) r = Some (Some l)"
    with p l' show ?thesis by auto
  qed
qed

lemma links_loop_ok_dom:
  assumes "list_all (\<lambda>(u, r). \<exists>l. newlink url_parse query_page u = Inr l) pre"
  shows "dom (fst (links_loop url_parse query_page Map.empty pre)) = snd ` set pre"
proof (rule set_eqI)
  fix r
  from links_loop_ok_lookup [OF assms, of r Map.empty]
  show "r \<in> dom (fst (links_loop url_parse query_page Map.empty pre)) \<longleftrightarrow> r \<in> snd ` set pre"
    by (force simp: dom_def)
qed

subsection \<open>Evaluating the examples\<close>

lemmas parser_eval = link_value_def rel_sep_def rel_here_def dquote_def newline_def
  url_page_abc_def url_page_3_def url_page_2_def url_page_1_def url_no_page_def
  plain_query_page_def plain_url_parse_def
  numeric_def is_digit_def digit_val_def newlink_def ParseInt_def ParseUint_def

lemma find_bad_last:
  "FindAllStringSubmatch header_bad_last = [(url_page_abc, ''last'')]"
  by (simp add: header_bad_last_def parser_eval cong: option.case_cong_weak)

lemma find_last_twice:
  "FindAllStringSubmatch header_last_twice = [(url_page_2, ''last''), (url_no_page, ''last'')]"
  by (simp add: header_last_twice_def parser_eval cong: option.case_cong_weak)

lemma find_next_bad_first:
  "FindAllStringSubmatch header_next_bad_first =
     [(url_page_2, ''next''), (url_no_page, ''last''), (url_page_1, ''first'')]"
  by (simp add: header_next_bad_first_def parser_eval cong: option.case_cong_weak)

lemma newlink_abc:
  "newlink plain_url_parse plain_query_page url_page_abc = Inl (CouldNotParsePageNum ErrSyntax)"
  by (simp add: parser_eval cong: option.case_cong_weak)

lemma newlink_no_page:
  "newlink plain_url_parse plain_query_page url_no_page = Inl (CouldNotParsePageNum ErrSyntax)"
  by (simp add: parser_eval cong: option.case_cong_weak)

lemma newlink_2:
  "newlink plain_url_parse plain_query_page url_page_2 = Inr \<lparr>url = url_page_2, page = 2\<rparr>"
  by (simp add: parser_eval cong: option.case_cong_weak)

lemma newlink_1:
  "newlink plain_url_parse plain_query_page url_page_1 = Inr \<lparr>url = url_page_1, page = 1\<rparr>"
  by (simp add: parser_eval cong: option.case_cong_weak)

subsection \<open>A bad page parameter is an error\<close>

text \<open>
  Claim C7. Whatever the Link header, if one of its matched links has a URL that parses and
  whose \<open>page\<close> query parameter is missing or not numeric, then \<open>newlink\<close> fails on that link
  with "could not parse page num", \<open>newLinkedResource\<close> returns an error, and no link of
  the returned set carries a page number other than the one parsed from its own URL: no
  page number is ever defaulted.
\<close>

theorem newLinkedResource_rejects_bad_page:
  assumes "(urlstr, rel) \<in> set (FindAllStringSubmatch header_link)"
    and "url_parse urlstr = Inr u"
    and "\<not> numeric (query_page u)"
  shows "(\<exists>ne. newlink url_parse query_page urlstr = Inl (CouldNotParsePageNum ne))
       \<and> (\<exists>e. snd (newLinkedResource url_parse query_page header_link) = Some e)
       \<and> (\<forall>r l. fst (newLinkedResource url_parse query_page header_link) r = Some (Some l)
             \<longrightarrow> ParseInt (query_page (url l)) = Inr (page l))"
proof (intro conjI allI impI)
  show bad: "\<exists>ne. newlink url_parse query_page urlstr = Inl (CouldNotParsePageNum ne)"
    using assms(2,3) by (rule newlink_not_numeric)
  then obtain ne where
    ne: "newlink url_parse query_page urlstr = Inl (CouldNotParsePageNum ne)" ..
  from links_loop_fails [OF assms(1) ne]
  show "\<exists>e. snd (newLinkedResource url_parse query_page header_link) = Some e"
    unfolding newLinkedResource_def .
next
  fix r l
  assume "fst (newLinkedResource url_parse query_page header_link) r = Some (Some l)"
  then have got: "fst (links_loop url_parse query_page Map.empty
      (FindAllStringSubmatch header_link)) r = Some (Some l)"
    unfolding newLinkedResource_def .
  have start: "\<forall>r l. Map.empty r = Some (Some l) \<longrightarrow>
      ParseInt (query_page (url l)) = Inr (page l)"
    by simp
  from start got show "ParseInt (query_page (url l)) = Inr (page l)"
    by (rule links_loop_pages)
qed

theorem newLinkedResource_rejects_bad_page_witness:
  "(url_page_abc, ''last'') \<in> set (FindAllStringSubmatch header_bad_last)
   \<and> plain_url_parse url_page_abc = Inr url_page_abc
   \<and> plain_query_page url_page_abc = ''abc''
   \<and> \<not> numeric ''abc''
   \<and> (\<exists>ne. newlink plain_url_parse plain_query_page url_page_abc = Inl (CouldNotParsePageNum ne))
   \<and> (\<exists>e. snd (newLinkedResource plain_url_parse plain_query_page header_bad_last) = Some e)"
proof -
  have a: "(url_page_abc, ''last'') \<in> set (FindAllStringSubmatch header_bad_last)"
    by (simp add: find_bad_last)
  have b: "plain_url_parse url_page_abc = Inr url_page_abc"
    by (simp add: plain_url_parse_def)
  have c: "plain_query_page url_page_abc = ''abc''"
    by (simp add: parser_eval)
  have d: "\<not> numeric ''abc''"
    by (simp add: parser_eval)
  have d': "\<not> numeric (plain_query_page url_page_abc)"
    using c d by simp
  have "(\<exists>ne. newlink plain_url_parse plain_query_page url_page_abc
            = Inl (CouldNotParsePageNum ne))
      \<and> (\<exists>e. snd (newLinkedResource plain_url_parse plain_query_page header_bad_last) = Some e)"
    using newLinkedResource_rejects_bad_page
      [of url_page_abc "''last''" header_bad_last plain_url_parse url_page_abc plain_query_page,
       OF a b d']
    by (intro conjI) (erule conjE, assumption, elim conjE, assumption)
  with a b c d show ?thesis by (intro conjI) simp_all
qed

subsection \<open>What the parser returns beside an error\<close>

text \<open>
  Claim C10, as the claim states it, fails: the returned link set is not exactly the
  relations parsed before the failing match. In the first header the only match fails, so
  nothing was parsed before it, yet the returned map holds the key \<open>last\<close> (with a nil
  link). In the second header \<open>last\<close> was parsed with success before the failing match,
  which has the same relation name, and the returned map holds a nil link for it.
\<close>

theorem newLinkedResource_error_result_counterexample:
  "FindAllStringSubmatch header_bad_last = [(url_page_abc, ''last'')]
   \<and> newlink plain_url_parse plain_query_page url_page_abc = Inl (CouldNotParsePageNum ErrSyntax)
   \<and> snd (newLinkedResource plain_url_parse plain_query_page header_bad_last)
        = Some (CouldNotParsePageNum ErrSyntax)
   \<and> dom (fst (newLinkedResource plain_url_parse plain_query_page header_bad_last)) = {''last''}
   \<and> FindAllStringSubmatch header_last_twice = [(url_page_2, ''last''), (url_no_page, ''last'')]
   \<and> newlink plain_url_parse plain_query_page url_page_2 = Inr \<lparr>url = url_page_2, page = 2\<rparr>
   \<and> newlink plain_url_parse plain_query_page url_no_page = Inl (CouldNotParsePageNum ErrSyntax)
   \<and> fst (newLinkedResource plain_url_parse plain_query_page header_last_twice) ''last''
        = Some None"
  by (simp add: newLinkedResource_def find_bad_last find_last_twice
      newlink_abc newlink_2 newlink_no_page)

text \<open>
  Claim C10, amended. When the parser fails on a matched link, after links that all parsed,
  it returns that link's error together with a map that is not empty: its keys are the
  relation names of the matches before the failing one and the failing match's own
  relation name; the failing relation holds a nil link, every other key holds a link
  parsed from one of the matches before the failure, and a relation matched only after
  the failure is absent.
\<close>

theorem newLinkedResource_error_result:
  assumes "FindAllStringSubmatch header_link = pre @ (urlstr, rel) # post"
    and "list_all (\<lambda>(u, r). \<exists>l. newlink url_parse query_page u = Inr l) pre"
    and "newlink url_parse query_page urlstr = Inl e"
  shows "snd (newLinkedResource url_parse query_page header_link) = Some e
       \<and> fst (newLinkedResource url_parse query_page header_link) rel = Some None
       \<and> dom (fst (newLinkedResource url_parse query_page header_link))
           = insert rel (snd ` set pre)
       \<and> (\<forall>r. r \<noteq> rel \<and> r \<in> snd ` set pre \<longrightarrow>
             (\<exists>u l. (u, r) \<in> set pre \<and> newlink url_parse query_page u = Inr l
                \<and> fst (newLinkedResource url_parse query_page header_link) r = Some (Some l)))"
proof -
  let ?before = "fst (links_loop url_parse query_page Map.empty pre)"
  have res: "newLinkedResource url_parse query_page header_link = (?before(rel \<mapsto> None), Some e)"
    unfolding newLinkedResource_def assms(1)
    by (rule links_loop_append_fail [OF assms(2,3)])
  have dom: "dom ?before = snd ` set pre"
    by (rule links_loop_ok_dom [OF assms(2)])
  have val: "\<exists>u l. (u, r) \<in> set pre \<and> newlink url_parse query_page u = Inr l
               \<and> ?before r = Some (Some l)"
    if "r \<in> snd ` set pre" for r
    using links_loop_ok_lookup [OF assms(2), of r Map.empty] that by (elim disjE) simp_all
  show ?thesis
    unfolding res using dom val by simp
qed

theorem newLinkedResource_error_result_witness:
  "FindAllStringSubmatch header_next_bad_first
     = [(url_page_2, ''next'')] @ (url_no_page, ''last'') # [(url_page_1, ''first'')]
   \<and> snd (newLinkedResource plain_url_parse plain_query_page header_next_bad_first)
       = Some (CouldNotParsePageNum ErrSyntax)
   \<and> fst (newLinkedResource plain_url_parse plain_query_page header_next_bad_first) ''last''
       = Some None
   \<and> dom (fst (newLinkedResource plain_url_parse plain_query_page header_next_bad_first))
       = {''last'', ''next''}"
proof -
  have a: "FindAllStringSubmatch header_next_bad_first
     = [(url_page_2, ''next'')] @ (url_no_page, ''last'') # [(url_page_1, ''first'')]"
    by (simp add: find_next_bad_first)
  have b: "list_all (\<lambda>(u, r). \<exists>l. newlink plain_url_parse plain_query_page u = Inr l)
             [(url_page_2, ''next'')]"
    by (simp add: newlink_2)
  from newLinkedResource_error_result [OF a b newlink_no_page] a
  show ?thesis by simp
qed

section \<open>Properties of the engine\<close>

subsection \<open>The invariant holds in every state of a run\<close>

lemma filter_update_length:
  "i < length xs \<Longrightarrow>
   length (filter P (xs[i := y])) + (if P (xs ! i) then 1 else 0)
     = length (filter P xs) + (if P y then 1 else 0)"
proof (induction xs arbitrary: i)
  case Nil
  then show ?case by simp
next
  case (Cons x xs)
  show ?case
  proof (cases i)
    case 0
    then show ?thesis by simp
  next
    case (Suc i')
    with Cons.prems have "i' < length xs" by simp
    from Cons.IH [OF this] Suc show ?thesis by simp
  qed
qed

lemma unfinished_set_job:
  "1 \<le> k \<Longrightarrow> k \<le> length (jobs s) \<Longrightarrow>
   unfinished (set_job k j s) + (if jobs s ! (k - 1) \<noteq> Finished then 1 else 0)
     = unfinished s + (if j \<noteq> Finished then 1 else 0)"
  unfolding unfinished_def set_job_def
  using filter_update_length [of "k - 1" "jobs s" "\<lambda>j. j \<noteq> Finished" j] by simp

lemma from_page_append [simp]:
  "from_page k (xs @ [(k', x)]) = (if k' = k then from_page k xs @ [x] else from_page k xs)"
  by (simp add: from_page_def)

lemma from_page_Nil [simp]: "from_page k [] = []"
  by (simp add: from_page_def)

lemma unfinished_zero:
  assumes "unfinished s = 0" and "1 \<le> k" and "k \<le> length (jobs s)"
  shows "jobs s ! (k - 1) = Finished"
proof -
  from assms(1) have "filter (\<lambda>j. j \<noteq> Finished) (jobs s) = []"
    by (simp add: unfinished_def)
  then have all: "\<forall>x \<in> set (jobs s). x = Finished"
    by (simp add: filter_empty_conv)
  from assms(2,3) have "k - 1 < length (jobs s)" by arith
  then have "jobs s ! (k - 1) \<in> set (jobs s)" by (rule nth_mem)
  with all show ?thesis by blast
qed

lemma job_at_Some: "job_at s k = Some j \<longleftrightarrow> 1 \<le> k \<and> k \<le> length (jobs s) \<and> jobs s ! (k - 1) = j"
  by (auto simp: job_at_def)

lemma nth_set_job:
  "1 \<le> k \<Longrightarrow> k \<le> length (jobs s) \<Longrightarrow> 1 \<le> k' \<Longrightarrow>
   jobs (set_job k j s) ! (k' - 1) = (if k' = k then j else jobs s ! (k' - 1))"
  by (auto simp: set_job_def nth_list_update)

lemma from_page_other:
  "\<forall>x \<in> set ds. fst x = k \<Longrightarrow> k' \<noteq> k \<Longrightarrow> from_page k' (xs @ ds) = from_page k' xs"
  by (induction ds) (auto simp: from_page_def)

lemma job_step_inv:
  assumes inv: "engine_inv p s"
    and k: "1 \<le> k" "k \<le> length (jobs s)"
    and jobs: "jobs s' = (jobs s)[k - 1 := j']"
    and unf: "jobs s ! (k - 1) \<noteq> Finished"
    and wg: "wg s' = (if j' = Finished then wg s - 1 else wg s)"
    and closer: "closer s' = closer s"
    and del: "delivered s' = delivered s @ ds" "\<forall>x \<in> set ds. fst x = k"
    and err: "errors s' = errors s @ es" "\<forall>x \<in> set es. fst x = k"
    and cons: "consistent j' (page_outcome p k) (from_page k (delivered s'))
                 (from_page k (errors s'))"
    and chan: "\<forall>e. consumer s' \<noteq> InChannel e"
  shows "engine_inv p s'"
proof -
  have len: "length (jobs s') = length (jobs s)"
    by (simp add: jobs)
  have count: "unfinished s' + 1 = unfinished s + (if j' \<noteq> Finished then 1 else 0)"
    using filter_update_length [of "k - 1" "jobs s" "\<lambda>j. j \<noteq> Finished" j'] k unf
    by (simp add: unfinished_def jobs)
  from inv have wg0: "wg s = int (unfinished s)"
    by (simp add: engine_inv_def)
  have c1: "wg s' = int (unfinished s')"
    using count wg0 wg by (simp split: if_splits)
  from unf k have "unfinished s \<noteq> 0"
    using unfinished_zero [of s k] by blast
  with inv have waiting: "closer s = Waiting"
    by (auto simp: engine_inv_def)
  have c2: "closer s' \<noteq> Absent" "closer s' \<noteq> Waiting \<longrightarrow> unfinished s' = 0"
    using waiting closer by simp_all
  have c3: "job_ok p s' k'" if k': "1 \<le> k'" "k' \<le> length (jobs s')" for k'
  proof (cases "k' = k")
    case True
    have "jobs s' ! (k - 1) = j'"
      using k by (simp add: jobs)
    with cons True show ?thesis by (simp add: job_ok_def)
  next
    case False
    with k k' have "k' - 1 \<noteq> k - 1" by arith
    then have same: "jobs s' ! (k' - 1) = jobs s ! (k' - 1)"
      by (simp add: jobs)
    from inv k' len have "job_ok p s k'"
      by (simp add: engine_inv_def)
    moreover have "from_page k' (delivered s') = from_page k' (delivered s)"
      unfolding del(1) using del(2) False by (rule from_page_other)
    moreover have "from_page k' (errors s') = from_page k' (errors s)"
      unfolding err(1) using err(2) False by (rule from_page_other)
    ultimately show ?thesis
      using same by (simp add: job_ok_def)
  qed
  have c4: "\<forall>x \<in> set (delivered s'). 1 \<le> fst x \<and> fst x \<le> length (jobs s')"
    using inv k del by (auto simp: engine_inv_def len)
  have c5: "\<forall>x \<in> set (errors s'). 1 \<le> fst x \<and> fst x \<le> length (jobs s')"
    using inv k err by (auto simp: engine_inv_def len)
  show ?thesis
    unfolding engine_inv_def using c1 c2 c3 c4 c5 chan by blast
qed

lemma recv_obj_not_InChannel: "recv_obj ob c = Some c' \<Longrightarrow> c' \<noteq> InChannel e"
  by (induction ob c rule: recv_obj.induct) auto

lemma recv_err_not_InChannel: "recv_err h e c = Some (c', crash) \<Longrightarrow> c' \<noteq> InChannel e'"
  by (induction h e c rule: recv_err.induct) (auto split: effect.splits if_splits)

lemma fetch_Some:
  "fetch p k s = Some s' \<Longrightarrow>
   job_at s k = Some Pending
   \<and> s' = set_job k (case page_outcome p k of Inl e \<Rightarrow> Failing e | Inr os \<Rightarrow> Sending os)
            (s\<lparr>gets := gets s + (if k = 1 then 0 else 1)\<rparr>)"
  by (auto simp: fetch_def split: option.splits job.splits)

lemma send_obj_Some:
  "send_obj k s = Some s' \<Longrightarrow>
   \<exists>ob os. job_at s k = Some (Sending (ob # os))
     \<and> (if objects_closed s then s' = s\<lparr>panicked := True\<rparr>
        else \<exists>c. recv_obj ob (consumer s) = Some c
               \<and> s' = set_job k (Sending os)
                        (s\<lparr>consumer := c, delivered := delivered s @ [(k, ob)]\<rparr>))"
  by (auto simp: send_obj_def split: option.splits job.splits list.splits if_splits)

lemma send_err_Some:
  "send_err p k s = Some s' \<Longrightarrow>
   \<exists>e. job_at s k = Some (Failing e)
     \<and> (if errs_closed s then s' = s\<lparr>panicked := True\<rparr>
        else \<exists>c crash. recv_err (handle p) e (consumer s) = Some (c, crash)
               \<and> s' = set_job k Returning
                        (s\<lparr>consumer := c, errors := errors s @ [(k, e)], panicked := crash\<rparr>))"
  by (auto simp: send_err_def split: option.splits job.splits if_splits)

lemma exit_job_Some:
  "exit_job k s = Some s' \<Longrightarrow>
   (job_at s k = Some (Sending []) \<or> job_at s k = Some Returning)
   \<and> (if wg s - 1 < 0 then s' = s\<lparr>panicked := True\<rparr>
      else s' = set_job k Finished (s\<lparr>wg := wg s - 1\<rparr>))"
  by (auto simp: exit_job_def split: option.splits if_splits)

lemma engine_inv_panicked [simp]: "engine_inv p (s\<lparr>panicked := b\<rparr>) = engine_inv p s"
  by (simp add: engine_inv_def unfinished_def job_ok_def)

lemma fetch_inv:
  assumes "engine_inv p s" and "fetch p k s = Some s'"
  shows "engine_inv p s'"
proof -
  let ?j = "case page_outcome p k of Inl e \<Rightarrow> Failing e | Inr os \<Rightarrow> Sending os"
  from fetch_Some [OF assms(2)] have k: "1 \<le> k" "k \<le> length (jobs s)"
    and pend: "jobs s ! (k - 1) = Pending"
    and s': "s' = set_job k ?j (s\<lparr>gets := gets s + (if k = 1 then 0 else 1)\<rparr>)"
    by (simp_all add: job_at_Some)
  from assms(1) k have "job_ok p s k" by (simp add: engine_inv_def)
  with pend have hist: "from_page k (delivered s) = []" "from_page k (errors s) = []"
    by (simp_all add: job_ok_def)
  show ?thesis
  proof (rule job_step_inv [OF assms(1) k, where j' = ?j and ds = "[]" and es = "[]"])
    show "consistent ?j (page_outcome p k) (from_page k (delivered s')) (from_page k (errors s'))"
      using hist by (simp add: s' set_job_def split: sum.splits)
    show "\<forall>e. consumer s' \<noteq> InChannel e"
      using assms(1) by (simp add: s' set_job_def engine_inv_def)
    show "wg s' = (if ?j = Finished then wg s - 1 else wg s)"
      by (simp add: s' set_job_def split: sum.splits)
    show "jobs s ! (k - 1) \<noteq> Finished"
      using pend by simp
  qed (simp_all add: s' set_job_def)
qed

lemma send_obj_inv:
  assumes "engine_inv p s" and "send_obj k s = Some s'"
  shows "engine_inv p s'"
proof -
  from send_obj_Some [OF assms(2)] obtain ob os where
    job: "job_at s k = Some (Sending (ob # os))"
    and eff: "if objects_closed s then s' = s\<lparr>panicked := True\<rparr>
        else \<exists>c. recv_obj ob (consumer s) = Some c
               \<and> s' = set_job k (Sending os)
                        (s\<lparr>consumer := c, delivered := delivered s @ [(k, ob)]\<rparr>)"
    by blast
  from job have k: "1 \<le> k" "k \<le> length (jobs s)" and j: "jobs s ! (k - 1) = Sending (ob # os)"
    by (simp_all add: job_at_Some)
  show ?thesis
  proof (cases "objects_closed s")
    case True
    with eff assms(1) show ?thesis by simp
  next
    case False
    with eff obtain c where c: "recv_obj ob (consumer s) = Some c"
      and s': "s' = set_job k (Sending os)
                        (s\<lparr>consumer := c, delivered := delivered s @ [(k, ob)]\<rparr>)"
      by auto
    from assms(1) k have "job_ok p s k" by (simp add: engine_inv_def)
    with j have hist: "page_outcome p k = Inr (from_page k (delivered s) @ ob # os)"
      "from_page k (errors s) = []"
      by (simp_all add: job_ok_def)
    show ?thesis
    proof (rule job_step_inv [OF assms(1) k, where j' = "Sending os" and ds = "[(k, ob)]"
          and es = "[]"])
      show "consistent (Sending os) (page_outcome p k) (from_page k (delivered s'))
              (from_page k (errors s'))"
        using hist by (simp add: s' set_job_def)
      show "\<forall>e. consumer s' \<noteq> InChannel e"
        using recv_obj_not_InChannel [OF c] by (simp add: s' set_job_def)
      show "jobs s ! (k - 1) \<noteq> Finished"
        using j by simp
    qed (simp_all add: s' set_job_def)
  qed
qed

lemma send_err_inv:
  assumes "engine_inv p s" and "send_err p k s = Some s'"
  shows "engine_inv p s'"
proof -
  from send_err_Some [OF assms(2)] obtain e where
    job: "job_at s k = Some (Failing e)"
    and eff: "if errs_closed s then s' = s\<lparr>panicked := True\<rparr>
        else \<exists>c crash. recv_err (handle p) e (consumer s) = Some (c, crash)
               \<and> s' = set_job k Returning
                        (s\<lparr>consumer := c, errors := errors s @ [(k, e)], panicked := crash\<rparr>)"
    by blast
  from job have k: "1 \<le> k" "k \<le> length (jobs s)" and j: "jobs s ! (k - 1) = Failing e"
    by (simp_all add: job_at_Some)
  show ?thesis
  proof (cases "errs_closed s")
    case True
    with eff assms(1) show ?thesis by simp
  next
    case False
    with eff obtain c crash where c: "recv_err (handle p) e (consumer s) = Some (c, crash)"
      and s': "s' = set_job k Returning
                 (s\<lparr>consumer := c, errors := errors s @ [(k, e)], panicked := crash\<rparr>)"
      by auto
    from assms(1) k have "job_ok p s k" by (simp add: engine_inv_def)
    with j have hist: "page_outcome p k = Inl e" "from_page k (delivered s) = []"
      "from_page k (errors s) = []"
      by (simp_all add: job_ok_def)
    show ?thesis
    proof (rule job_step_inv [OF assms(1) k, where j' = Returning and ds = "[]"
          and es = "[(k, e)]"])
      show "consistent Returning (page_outcome p k) (from_page k (delivered s'))
              (from_page k (errors s'))"
        using hist by (simp add: s' set_job_def)
      show "\<forall>e. consumer s' \<noteq> InChannel e"
        using recv_err_not_InChannel [OF c] by (simp add: s' set_job_def)
      show "jobs s ! (k - 1) \<noteq> Finished"
        using j by simp
    qed (simp_all add: s' set_job_def)
  qed
qed

lemma exit_job_inv:
  assumes "engine_inv p s" and "exit_job k s = Some s'"
  shows "engine_inv p s'"
proof -
  from exit_job_Some [OF assms(2)] have
    job: "job_at s k = Some (Sending []) \<or> job_at s k = Some Returning"
    and eff: "if wg s - 1 < 0 then s' = s\<lparr>panicked := True\<rparr>
      else s' = set_job k Finished (s\<lparr>wg := wg s - 1\<rparr>)"
    by simp_all
  from job have k: "1 \<le> k" "k \<le> length (jobs s)"
    and j: "jobs s ! (k - 1) = Sending [] \<or> jobs s ! (k - 1) = Returning"
    by (auto simp: job_at_Some)
  show ?thesis
  proof (cases "wg s - 1 < 0")
    case True
    with eff assms(1) show ?thesis by simp
  next
    case False
    with eff have s': "s' = set_job k Finished (s\<lparr>wg := wg s - 1\<rparr>)"
      by simp
    from assms(1) k have ok: "job_ok p s k" by (simp add: engine_inv_def)
    show ?thesis
    proof (rule job_step_inv [OF assms(1) k, where j' = Finished and ds = "[]" and es = "[]"])
      show "consistent Finished (page_outcome p k) (from_page k (delivered s'))
              (from_page k (errors s'))"
        using ok j by (auto simp: s' set_job_def job_ok_def split: sum.splits)
      show "\<forall>e. consumer s' \<noteq> InChannel e"
        using assms(1) by (simp add: s' set_job_def engine_inv_def)
      show "jobs s ! (k - 1) \<noteq> Finished"
        using j by auto
    qed (simp_all add: s' set_job_def)
  qed
qed

lemma engine_inv_frame:
  assumes "engine_inv p s"
    and "jobs s' = jobs s" and "wg s' = wg s" and "delivered s' = delivered s"
    and "errors s' = errors s"
    and "closer s' \<noteq> Absent" and "closer s' \<noteq> Waiting \<longrightarrow> unfinished s = 0"
    and "\<forall>e. consumer s' \<noteq> InChannel e"
  shows "engine_inv p s'"
  using assms unfolding engine_inv_def unfinished_def job_ok_def by simp

lemma close_objects_inv:
  assumes "engine_inv p s" and "close_objects s = Some s'"
  shows "engine_inv p s'"
proof -
  from assms(2) have c: "closer s = Waiting" "wg s = 0" and s': "s' = s\<lparr>closer := ClosedObjects\<rparr>"
    by (auto simp: close_objects_def split: if_splits)
  from assms(1) c have "unfinished s = 0" by (simp add: engine_inv_def)
  with assms(1) show ?thesis
    by (intro engine_inv_frame [OF assms(1)]) (simp_all add: s' engine_inv_def)
qed

lemma close_errs_inv:
  assumes "engine_inv p s" and "close_errs s = Some s'"
  shows "engine_inv p s'"
proof -
  from assms(2) have c: "closer s = ClosedObjects" and s': "s' = s\<lparr>closer := ClosedBoth\<rparr>"
    by (auto simp: close_errs_def split: if_splits)
  from assms(1) c have "unfinished s = 0" by (simp add: engine_inv_def)
  with assms(1) show ?thesis
    by (intro engine_inv_frame [OF assms(1)]) (simp_all add: s' engine_inv_def)
qed

lemma recv_obj_closed_inv:
  assumes "engine_inv p s" and "recv_obj_closed s = Some s'"
  shows "engine_inv p s'"
proof -
  from assms(2) obtain c where c: "recv_obj None (consumer s) = Some c"
    and s': "s' = s\<lparr>consumer := c\<rparr>"
    by (auto simp: recv_obj_closed_def split: if_splits option.splits)
  from assms(1) recv_obj_not_InChannel [OF c] show ?thesis
    by (intro engine_inv_frame [OF assms(1)]) (simp_all add: s' engine_inv_def)
qed

lemma recv_quit_inv:
  assumes "engine_inv p s" and "recv_quit s = Some s'"
  shows "engine_inv p s'"
proof -
  from assms(2) have s': "s' = s\<lparr>consumer := AdapterDone\<rparr>"
    by (auto simp: recv_quit_def split: if_splits consumer.splits)
  from assms(1) show ?thesis
    by (intro engine_inv_frame [OF assms(1)]) (simp_all add: s' engine_inv_def)
qed

lemma deliver_inv:
  assumes "engine_inv p s" and "deliver s = Some s'"
  shows "engine_inv p s'"
proof -
  from assms(2) obtain f q where s': "s' = s\<lparr>consumer := Selecting q, results := results s @ [f]\<rparr>"
    by (auto simp: deliver_def split: consumer.splits)
  from assms(1) show ?thesis
    by (intro engine_inv_frame [OF assms(1)]) (simp_all add: s' engine_inv_def)
qed

lemma first_err_send_None [simp]: "first_err_send p s = None"
  by (simp add: first_err_send_def receiving_def split: consumer.splits)

lemma exec_inv:
  assumes "engine_inv p s" and "exec p a s = Some s'"
  shows "engine_inv p s'"
proof (cases a)
  case (Fetch k)
  with assms show ?thesis by (auto simp: exec_def split: if_splits intro: fetch_inv)
next
  case (SendObj k)
  with assms show ?thesis by (auto simp: exec_def split: if_splits intro: send_obj_inv)
next
  case (SendErr k)
  with assms show ?thesis by (auto simp: exec_def split: if_splits intro: send_err_inv)
next
  case (Exit k)
  with assms show ?thesis by (auto simp: exec_def split: if_splits intro: exit_job_inv)
next
  case CloseObjects
  with assms show ?thesis by (auto simp: exec_def split: if_splits intro: close_objects_inv)
next
  case CloseErrs
  with assms show ?thesis by (auto simp: exec_def split: if_splits intro: close_errs_inv)
next
  case RecvObjClosed
  with assms show ?thesis by (auto simp: exec_def split: if_splits intro: recv_obj_closed_inv)
next
  case RecvErrClosed
  with assms show ?thesis by (auto simp: exec_def recv_err_closed_def split: if_splits)
next
  case RecvQuit
  with assms show ?thesis by (auto simp: exec_def split: if_splits intro: recv_quit_inv)
next
  case Deliver
  with assms show ?thesis by (auto simp: exec_def split: if_splits intro: deliver_inv)
next
  case FirstErrSend
  with assms show ?thesis by (simp add: exec_def split: if_splits)
qed

lemma run_inv:
  "engine_inv p s \<Longrightarrow> run p as s = Some s' \<Longrightarrow> engine_inv p s'"
proof (induction as arbitrary: s)
  case Nil
  then show ?case by simp
next
  case (Cons a as)
  from Cons.prems(2) obtain s1 where s1: "exec p a s = Some s1" and rest: "run p as s1 = Some s'"
    by (auto simp: bind_eq_Some_conv)
  from exec_inv [OF Cons.prems(1) s1] rest show ?case by (rule Cons.IH)
qed

lemma channel_ok:
  assumes "firstReq p = FirstOk n resp" and "1 \<le> n"
  shows "channel p =
     \<lparr>jobs = replicate (nat n) Pending, wg = n, closer = Waiting, consumer = start (reader p),
      results = [], delivered = [], errors = [], gets = 1, panicked = False\<rparr>"
  using assms by (simp add: channel_def Let_def max_def)

lemma start_not_InChannel [simp]: "start r \<noteq> InChannel e"
  by (cases r) (simp_all add: start_def)

lemma init_inv:
  assumes "firstReq p = FirstOk n resp" and "1 \<le> n"
  shows "engine_inv p (channel p)"
  unfolding channel_ok [OF assms] engine_inv_def
  using assms(2) by (auto simp: unfinished_def job_ok_def)

lemma active_waiting:
  assumes "engine_inv p s" and "job_at s k = Some j" and "j \<noteq> Finished"
  shows "closer s = Waiting \<and> 1 \<le> wg s"
proof -
  from assms(2) have k: "1 \<le> k" "k \<le> length (jobs s)" and j: "jobs s ! (k - 1) = j"
    by (simp_all add: job_at_Some)
  have "unfinished s \<noteq> 0"
    using unfinished_zero [of s k] k j assms(3) by blast
  with assms(1) show ?thesis by (auto simp: engine_inv_def)
qed

lemma recv_err_crash: "recv_err h e c = Some (c', True) \<Longrightarrow> \<exists>q. c = Selecting q"
  by (induction h e c rule: recv_err.induct) (auto split: effect.splits if_splits)

lemma exec_no_panic:
  assumes inv: "engine_inv p s" and step: "exec p a s = Some s'"
    and rd: "\<forall>q. consumer s \<noteq> Selecting q"
  shows "\<not> panicked s'"
proof -
  from step have np: "\<not> panicked s" by (auto simp: exec_def split: if_splits)
  show ?thesis
  proof (cases a)
    case (Fetch k)
    with step np have "fetch p k s = Some s'" by (simp add: exec_def)
    from fetch_Some [OF this] np show ?thesis by (simp add: set_job_def)
  next
    case (SendObj k)
    with step np have st: "send_obj k s = Some s'" by (simp add: exec_def)
    from send_obj_Some [OF st] obtain ob os where
      job: "job_at s k = Some (Sending (ob # os))"
      and eff: "if objects_closed s then s' = s\<lparr>panicked := True\<rparr>
        else \<exists>c. recv_obj ob (consumer s) = Some c
               \<and> s' = set_job k (Sending os)
                        (s\<lparr>consumer := c, delivered := delivered s @ [(k, ob)]\<rparr>)"
      by blast
    from active_waiting [OF inv job] have "\<not> objects_closed s"
      by (simp add: objects_closed_def)
    with eff np show ?thesis by (auto simp: set_job_def)
  next
    case (SendErr k)
    with step np have st: "send_err p k s = Some s'" by (simp add: exec_def)
    from send_err_Some [OF st] obtain e where
      job: "job_at s k = Some (Failing e)"
      and eff: "if errs_closed s then s' = s\<lparr>panicked := True\<rparr>
        else \<exists>c crash. recv_err (handle p) e (consumer s) = Some (c, crash)
               \<and> s' = set_job k Returning
                        (s\<lparr>consumer := c, errors := errors s @ [(k, e)], panicked := crash\<rparr>)"
      by blast
    from active_waiting [OF inv job] have "\<not> errs_closed s"
      by (simp add: errs_closed_def)
    with eff obtain c crash where c: "recv_err (handle p) e (consumer s) = Some (c, crash)"
      and s': "s' = set_job k Returning
                 (s\<lparr>consumer := c, errors := errors s @ [(k, e)], panicked := crash\<rparr>)"
      by auto
    from c rd recv_err_crash [of "handle p" e "consumer s" c] have "\<not> crash"
      by (cases crash) auto
    then show ?thesis by (simp add: s' set_job_def)
  next
    case (Exit k)
    with step np have st: "exit_job k s = Some s'" by (simp add: exec_def)
    from exit_job_Some [OF st] have
      job: "job_at s k = Some (Sending []) \<or> job_at s k = Some Returning"
      and eff: "if wg s - 1 < 0 then s' = s\<lparr>panicked := True\<rparr>
        else s' = set_job k Finished (s\<lparr>wg := wg s - 1\<rparr>)"
      by simp_all
    from job active_waiting [OF inv] have "1 \<le> wg s" by auto
    with eff np show ?thesis by (simp add: set_job_def)
  next
    case CloseObjects
    with step np show ?thesis by (auto simp: exec_def close_objects_def split: if_splits)
  next
    case CloseErrs
    with step np show ?thesis by (auto simp: exec_def close_errs_def split: if_splits)
  next
    case RecvObjClosed
    with step np show ?thesis
      by (auto simp: exec_def recv_obj_closed_def split: if_splits option.splits)
  next
    case RecvErrClosed
    with step np show ?thesis by (auto simp: exec_def recv_err_closed_def split: if_splits)
  next
    case RecvQuit
    with step np show ?thesis
      by (auto simp: exec_def recv_quit_def split: if_splits consumer.splits)
  next
    case Deliver
    with step np show ?thesis by (auto simp: exec_def deliver_def split: consumer.splits)
  next
    case FirstErrSend
    with step show ?thesis by (simp add: exec_def split: if_splits)
  qed
qed

lemma collect_inv_panicked [simp]: "collect_inv (s\<lparr>panicked := b\<rparr>) = collect_inv s"
  by (simp add: collect_inv_def objects_closed_def split: consumer.splits option.splits)

lemma collect_inv_frame:
  assumes "collect_inv s" and "consumer s' = consumer s" and "delivered s' = delivered s"
    and "errors s' = errors s" and "objects_closed s \<longrightarrow> objects_closed s'"
  shows "collect_inv s'"
  using assms unfolding collect_inv_def
  by (auto split: consumer.splits option.splits)

lemma exec_collect_inv:
  assumes ci: "collect_inv s" and step: "exec p a s = Some s'"
  shows "collect_inv s'"
proof -
  from step have np: "\<not> panicked s" by (auto simp: exec_def split: if_splits)
  show ?thesis
  proof (cases a)
    case (Fetch k)
    with step np have "fetch p k s = Some s'" by (simp add: exec_def)
    from fetch_Some [OF this] show ?thesis
      by (intro collect_inv_frame [OF ci]) (simp_all add: set_job_def objects_closed_def)
  next
    case (SendObj k)
    with step np have st: "send_obj k s = Some s'" by (simp add: exec_def)
    from send_obj_Some [OF st] obtain ob os where
      eff: "if objects_closed s then s' = s\<lparr>panicked := True\<rparr>
        else \<exists>c. recv_obj ob (consumer s) = Some c
               \<and> s' = set_job k (Sending os)
                        (s\<lparr>consumer := c, delivered := delivered s @ [(k, ob)]\<rparr>)"
      by blast
    show ?thesis
    proof (cases "objects_closed s")
      case True
      with eff ci show ?thesis by simp
    next
      case False
      with eff obtain c where c: "recv_obj ob (consumer s) = Some c"
        and s': "s' = set_job k (Sending os)
                   (s\<lparr>consumer := c, delivered := delivered s @ [(k, ob)]\<rparr>)"
        by auto
      from ci c show ?thesis
        unfolding s' collect_inv_def set_job_def
        by (cases ob; cases "consumer s") (auto simp: objects_closed_def)
    qed
  next
    case (SendErr k)
    with step np have st: "send_err p k s = Some s'" by (simp add: exec_def)
    from send_err_Some [OF st] obtain e where
      eff: "if errs_closed s then s' = s\<lparr>panicked := True\<rparr>
        else \<exists>c crash. recv_err (handle p) e (consumer s) = Some (c, crash)
               \<and> s' = set_job k Returning
                        (s\<lparr>consumer := c, errors := errors s @ [(k, e)], panicked := crash\<rparr>)"
      by blast
    show ?thesis
    proof (cases "errs_closed s")
      case True
      with eff ci show ?thesis by simp
    next
      case False
      with eff obtain c crash where c: "recv_err (handle p) e (consumer s) = Some (c, crash)"
        and s': "s' = set_job k Returning
                   (s\<lparr>consumer := c, errors := errors s @ [(k, e)], panicked := crash\<rparr>)"
        by auto
      from ci c show ?thesis
        unfolding s' collect_inv_def set_job_def
        by (cases "consumer s") (auto simp: objects_closed_def)
    qed
  next
    case (Exit k)
    with step np have st: "exit_job k s = Some s'" by (simp add: exec_def)
    from exit_job_Some [OF st] have
      eff: "if wg s - 1 < 0 then s' = s\<lparr>panicked := True\<rparr>
        else s' = set_job k Finished (s\<lparr>wg := wg s - 1\<rparr>)"
      by simp
    show ?thesis
    proof (cases "wg s - 1 < 0")
      case True
      with eff ci show ?thesis by simp
    next
      case False
      with eff show ?thesis
        by (intro collect_inv_frame [OF ci]) (simp_all add: set_job_def objects_closed_def)
    qed
  next
    case CloseObjects
    with step np have "s' = s\<lparr>closer := ClosedObjects\<rparr>"
      by (auto simp: exec_def close_objects_def split: if_splits)
    then show ?thesis
      by (intro collect_inv_frame [OF ci]) (simp_all add: objects_closed_def)
  next
    case CloseErrs
    with step np have "s' = s\<lparr>closer := ClosedBoth\<rparr>"
      by (auto simp: exec_def close_errs_def split: if_splits)
    then show ?thesis
      by (intro collect_inv_frame [OF ci]) (simp_all add: objects_closed_def)
  next
    case RecvObjClosed
    with step np obtain c where closed: "objects_closed s"
      and c: "recv_obj None (consumer s) = Some c" and s': "s' = s\<lparr>consumer := c\<rparr>"
      by (auto simp: exec_def recv_obj_closed_def split: if_splits option.splits)
    from ci c closed show ?thesis
      unfolding s' collect_inv_def
      by (cases "consumer s") (auto simp: objects_closed_def)
  next
    case RecvErrClosed
    with step np ci show ?thesis by (auto simp: exec_def recv_err_closed_def split: if_splits)
  next
    case RecvQuit
    with step np ci show ?thesis
      by (auto simp: exec_def recv_quit_def collect_inv_def split: if_splits consumer.splits)
  next
    case Deliver
    with step np ci show ?thesis
      by (auto simp: exec_def deliver_def collect_inv_def split: consumer.splits)
  next
    case FirstErrSend
    with step show ?thesis by (simp add: exec_def split: if_splits)
  qed
qed

lemma run_collect_inv:
  "collect_inv s \<Longrightarrow> run p as s = Some s' \<Longrightarrow> collect_inv s'"
proof (induction as arbitrary: s)
  case Nil
  then show ?case by simp
next
  case (Cons a as)
  from Cons.prems(2) obtain s1 where s1: "exec p a s = Some s1" and rest: "run p as s1 = Some s'"
    by (auto simp: bind_eq_Some_conv)
  from exec_collect_inv [OF Cons.prems(1) s1] rest show ?case by (rule Cons.IH)
qed

lemma collect_not_Selecting: "collect_inv s \<Longrightarrow> consumer s \<noteq> Selecting q"
  by (auto simp: collect_inv_def)

lemma run_no_panic_collect:
  "engine_inv p s \<Longrightarrow> collect_inv s \<Longrightarrow> \<not> panicked s \<Longrightarrow> run p as s = Some s'
   \<Longrightarrow> \<not> panicked s'"
proof (induction as arbitrary: s)
  case Nil
  then show ?case by simp
next
  case (Cons a as)
  from Cons.prems(4) obtain s1 where s1: "exec p a s = Some s1" and rest: "run p as s1 = Some s'"
    by (auto simp: bind_eq_Some_conv)
  have "\<not> panicked s1"
    using exec_no_panic [OF Cons.prems(1) s1] collect_not_Selecting [OF Cons.prems(2)] by blast
  with exec_inv [OF Cons.prems(1) s1] exec_collect_inv [OF Cons.prems(2) s1] rest
  show ?case by (intro Cons.IH)
qed

lemma init_collect_inv:
  assumes "firstReq p = FirstOk n resp" and "1 \<le> n" and "reader p = Collect"
  shows "collect_inv (channel p)"
  unfolding channel_ok [OF assms(1,2)] by (simp add: collect_inv_def assms(3) start_def)

lemma weights_update:
  "i < length js \<Longrightarrow>
   weights p k (js[i := j']) + job_weight p (k + i) (js ! i)
     = weights p k js + job_weight p (k + i) j'"
proof (induction js arbitrary: k i)
  case Nil
  then show ?case by simp
next
  case (Cons j js)
  show ?case
  proof (cases i)
    case 0
    then show ?thesis by simp
  next
    case (Suc i')
    with Cons.prems have "i' < length js" by simp
    from Cons.IH [OF this, of "Suc k"] Suc show ?thesis by simp
  qed
qed

lemma weights_set_job:
  assumes "job_at s k = Some j"
  shows "weights p 1 (jobs (set_job k j' s)) + job_weight p k j
           = weights p 1 (jobs s) + job_weight p k j'"
proof -
  from assms have k: "1 \<le> k" "k \<le> length (jobs s)" and j: "jobs s ! (k - 1) = j"
    by (simp_all add: job_at_Some)
  from k have "k - 1 < length (jobs s)" and "1 + (k - 1) = k" by arith+
  with weights_update [of "k - 1" "jobs s" p 1 j'] j show ?thesis
    by (simp add: set_job_def)
qed

lemma job_at_same: "jobs s' = jobs s \<Longrightarrow> job_at s' k = job_at s k"
  by (simp add: job_at_def)

lemma recv_obj_weight: "recv_obj ob c = Some c' \<Longrightarrow> consumer_weight c' \<le> consumer_weight c + 1"
  by (induction ob c rule: recv_obj.induct) auto

lemma recv_err_weight:
  "recv_err h e c = Some (c', crash) \<Longrightarrow> consumer_weight c' \<le> consumer_weight c"
  by (induction h e c rule: recv_err.induct) (auto split: effect.splits if_splits)

lemma recv_obj_None_weight:
  "recv_obj None c = Some c' \<Longrightarrow> c \<noteq> Draining \<Longrightarrow> consumer_weight c' < consumer_weight c"
  by (cases c) auto

lemma fetch_lowers:
  assumes "fetch p k s = Some s'" and np: "\<not> panicked s"
  shows "remaining p s' < remaining p s"
proof -
  from fetch_Some [OF assms(1)] have job: "job_at s k = Some Pending"
    and s': "s' = set_job k (case page_outcome p k of Inl e \<Rightarrow> Failing e | Inr os \<Rightarrow> Sending os)
          (s\<lparr>gets := gets s + (if k = 1 then 0 else 1)\<rparr>)"
    by blast+
  let ?j = "case page_outcome p k of Inl e \<Rightarrow> Failing e | Inr os \<Rightarrow> Sending os"
  have jobs': "jobs s' = jobs (set_job k ?j s)"
    unfolding s' set_job_def by simp
  have same: "closer s' = closer s" "consumer s' = consumer s" "panicked s' = panicked s"
    unfolding s' set_job_def by simp_all
  have less: "job_weight p k ?j < job_weight p k Pending"
    by (cases "page_outcome p k") simp_all
  from weights_set_job [OF job, of p ?j] less
  have "weights p 1 (jobs s') < weights p 1 (jobs s)"
    unfolding jobs' by arith
  then show ?thesis
    using np by (simp add: remaining_def same)
qed

lemma send_obj_lowers:
  assumes st: "send_obj k s = Some s'" and np: "\<not> panicked s"
  shows "remaining p s' < remaining p s"
proof -
  from send_obj_Some [OF st] obtain ob os where
    job: "job_at s k = Some (Sending (ob # os))"
    and eff: "if objects_closed s then s' = s\<lparr>panicked := True\<rparr>
      else \<exists>c. recv_obj ob (consumer s) = Some c
             \<and> s' = set_job k (Sending os)
                      (s\<lparr>consumer := c, delivered := delivered s @ [(k, ob)]\<rparr>)"
    by blast
  show ?thesis
  proof (cases "objects_closed s")
    case True
    with eff have "panicked s'" by simp
    with np show ?thesis by (simp add: remaining_def)
  next
    case False
    with eff obtain c where c: "recv_obj ob (consumer s) = Some c"
      and s': "s' = set_job k (Sending os)
                 (s\<lparr>consumer := c, delivered := delivered s @ [(k, ob)]\<rparr>)"
      by auto
    have jobs': "jobs s' = jobs (set_job k (Sending os) s)"
      unfolding s' set_job_def by simp
    have same: "closer s' = closer s" "consumer s' = c" "panicked s' = panicked s"
      unfolding s' set_job_def by simp_all
    from weights_set_job [OF job, of p "Sending os"]
    have "weights p 1 (jobs s') + 2 = weights p 1 (jobs s)"
      unfolding jobs' by simp
    with recv_obj_weight [OF c] show ?thesis
      using np by (simp add: remaining_def same)
  qed
qed

lemma send_err_lowers:
  assumes st: "send_err p k s = Some s'" and np: "\<not> panicked s"
  shows "remaining p s' < remaining p s"
proof -
  from send_err_Some [OF st] obtain e where
    job: "job_at s k = Some (Failing e)"
    and eff: "if errs_closed s then s' = s\<lparr>panicked := True\<rparr>
      else \<exists>c crash. recv_err (handle p) e (consumer s) = Some (c, crash)
             \<and> s' = set_job k Returning
                      (s\<lparr>consumer := c, errors := errors s @ [(k, e)], panicked := crash\<rparr>)"
    by blast
  show ?thesis
  proof (cases "errs_closed s")
    case True
    with eff have "panicked s'" by simp
    with np show ?thesis by (simp add: remaining_def)
  next
    case False
    with eff obtain c crash where c: "recv_err (handle p) e (consumer s) = Some (c, crash)"
      and s': "s' = set_job k Returning
                 (s\<lparr>consumer := c, errors := errors s @ [(k, e)], panicked := crash\<rparr>)"
      by auto
    have jobs': "jobs s' = jobs (set_job k Returning s)"
      unfolding s' set_job_def by simp
    have same: "closer s' = closer s" "consumer s' = c" "panicked s' = crash"
      unfolding s' set_job_def by simp_all
    from weights_set_job [OF job, of p Returning]
    have "weights p 1 (jobs s') + 1 = weights p 1 (jobs s)"
      unfolding jobs' by simp
    with recv_err_weight [OF c] show ?thesis
      using np by (simp add: remaining_def same)
  qed
qed

lemma exit_job_lowers:
  assumes st: "exit_job k s = Some s'" and np: "\<not> panicked s"
  shows "remaining p s' < remaining p s"
proof -
  from exit_job_Some [OF st] have
    job: "job_at s k = Some (Sending []) \<or> job_at s k = Some Returning"
    and eff: "if wg s - 1 < 0 then s' = s\<lparr>panicked := True\<rparr>
      else s' = set_job k Finished (s\<lparr>wg := wg s - 1\<rparr>)"
    by blast+
  show ?thesis
  proof (cases "wg s - 1 < 0")
    case True
    with eff have "panicked s'" by simp
    with np show ?thesis by (simp add: remaining_def)
  next
    case False
    with eff have s': "s' = set_job k Finished (s\<lparr>wg := wg s - 1\<rparr>)" by simp
    have jobs': "jobs s' = jobs (set_job k Finished s)"
      unfolding s' set_job_def by simp
    have same: "closer s' = closer s" "consumer s' = consumer s" "panicked s' = panicked s"
      unfolding s' set_job_def by simp_all
    from job obtain j where j: "job_at s k = Some j" "job_weight p k j = 1"
      by auto
    from weights_set_job [OF j(1), of p Finished] j(2)
    have "weights p 1 (jobs s') + 1 = weights p 1 (jobs s)"
      unfolding jobs' by simp
    then show ?thesis
      using np by (simp add: remaining_def same)
  qed
qed

lemma exec_lowers:
  assumes step: "exec p a s = Some s'"
    and a: "a \<noteq> RecvErrClosed" "a = RecvObjClosed \<longrightarrow> consumer s \<noteq> Draining"
  shows "remaining p s' < remaining p s"
proof -
  from step have np: "\<not> panicked s" by (auto simp: exec_def split: if_splits)
  show ?thesis
  proof (cases a)
    case (Fetch k)
    with step np have "fetch p k s = Some s'" by (simp add: exec_def)
    then show ?thesis using np by (rule fetch_lowers)
  next
    case (SendObj k)
    with step np have "send_obj k s = Some s'" by (simp add: exec_def)
    then show ?thesis using np by (rule send_obj_lowers)
  next
    case (SendErr k)
    with step np have "send_err p k s = Some s'" by (simp add: exec_def)
    then show ?thesis using np by (rule send_err_lowers)
  next
    case (Exit k)
    with step np have "exit_job k s = Some s'" by (simp add: exec_def)
    then show ?thesis using np by (rule exit_job_lowers)
  next
    case CloseObjects
    with step np have "closer s = Waiting" "s' = s\<lparr>closer := ClosedObjects\<rparr>"
      by (auto simp: exec_def close_objects_def split: if_splits)
    with np show ?thesis by (simp add: remaining_def)
  next
    case CloseErrs
    with step np have "closer s = ClosedObjects" "s' = s\<lparr>closer := ClosedBoth\<rparr>"
      by (auto simp: exec_def close_errs_def split: if_splits)
    with np show ?thesis by (simp add: remaining_def)
  next
    case RecvObjClosed
    with step np obtain c where c: "recv_obj None (consumer s) = Some c"
      and s': "s' = s\<lparr>consumer := c\<rparr>"
      by (auto simp: exec_def recv_obj_closed_def split: if_splits option.splits)
    from recv_obj_None_weight [OF c] a(2) RecvObjClosed np show ?thesis
      by (simp add: remaining_def s')
  next
    case RecvErrClosed
    with a show ?thesis by simp
  next
    case RecvQuit
    with step np obtain q where "consumer s = Selecting q" "q > 0"
      "s' = s\<lparr>consumer := AdapterDone\<rparr>"
      by (auto simp: exec_def recv_quit_def split: if_splits consumer.splits)
    with np show ?thesis by (simp add: remaining_def)
  next
    case Deliver
    with step np obtain f q where "consumer s = Forwarding f q"
      "s' = s\<lparr>consumer := Selecting q, results := results s @ [f]\<rparr>"
      by (auto simp: exec_def deliver_def split: consumer.splits)
    with np show ?thesis by (simp add: remaining_def)
  next
    case FirstErrSend
    with step show ?thesis by (simp add: exec_def split: if_splits)
  qed
qed

lemma recv_err_closed_same: "recv_err_closed s = Some s' \<Longrightarrow> s' = s"
  by (simp add: recv_err_closed_def split: if_splits)

lemma run_bound:
  assumes step: "\<And>s a s'. I s \<Longrightarrow> exec p a s = Some s' \<Longrightarrow> I s'"
    and idle: "\<And>s a s'. I s \<Longrightarrow> exec p a s = Some s' \<Longrightarrow> \<not> busy a
                 \<Longrightarrow> remaining p s' \<le> remaining p s"
    and busy: "\<And>s a s'. I s \<Longrightarrow> exec p a s = Some s' \<Longrightarrow> busy a
                 \<Longrightarrow> remaining p s' < remaining p s"
  shows "I s \<Longrightarrow> run p as s = Some s'
           \<Longrightarrow> length (filter busy as) + remaining p s' \<le> remaining p s"
proof (induction as arbitrary: s)
  case Nil
  then show ?case by simp
next
  case (Cons a as)
  from Cons.prems(2) obtain s1 where s1: "exec p a s = Some s1" and rest: "run p as s1 = Some s'"
    by (auto simp: bind_eq_Some_conv)
  from step [OF Cons.prems(1) s1] rest
  have ih: "length (filter busy as) + remaining p s' \<le> remaining p s1"
    by (rule Cons.IH)
  show ?case
  proof (cases "busy a")
    case True
    from busy [OF Cons.prems(1) s1 True] ih True show ?thesis by simp
  next
    case False
    from idle [OF Cons.prems(1) s1 False] ih False show ?thesis by simp
  qed
qed

lemma collect_run_bound:
  assumes "collect_inv s" and "run p as s = Some s'"
  shows "length (filter (\<lambda>a. a \<noteq> RecvErrClosed) as) + remaining p s' \<le> remaining p s"
proof (rule run_bound [where I = collect_inv and busy = "\<lambda>a. a \<noteq> RecvErrClosed", OF _ _ _ assms])
  fix s a s'
  assume ci: "collect_inv (s :: 'a state)" and st: "exec p a s = Some s'"
  show "collect_inv s'" using ci st by (rule exec_collect_inv)
  {
    assume "\<not> a \<noteq> RecvErrClosed"
    with st have "s' = s"
      by (auto simp: exec_def split: if_splits dest: recv_err_closed_same)
    then show "remaining p s' \<le> remaining p s" by simp
  }
  {
    assume b: "a \<noteq> RecvErrClosed"
    from ci have "consumer s \<noteq> Draining" by (auto simp: collect_inv_def)
    with st b show "remaining p s' < remaining p s" by (intro exec_lowers) simp_all
  }
qed

subsection \<open>No deadlock while the reader receives\<close>

lemma receiving_recv_obj: "receiving c \<Longrightarrow> \<exists>c'. recv_obj ob c = Some c'"
  by (cases c; cases ob) (simp_all add: receiving_def)

lemma receiving_recv_err: "receiving c \<Longrightarrow> \<exists>c' crash. recv_err h e c = Some (c', crash)"
  by (cases c; cases "h e") (auto simp: receiving_def)

lemma some_unfinished:
  assumes "unfinished s \<noteq> 0"
  shows "\<exists>k j. job_at s k = Some j \<and> j \<noteq> Finished"
proof -
  from assms have "filter (\<lambda>j. j \<noteq> Finished) (jobs s) \<noteq> []"
    by (simp add: unfinished_def)
  then obtain x where "x \<in> set (jobs s)" "x \<noteq> Finished"
    by (auto simp: filter_empty_conv)
  then obtain i where i: "i < length (jobs s)" "jobs s ! i = x"
    by (auto simp: in_set_conv_nth)
  then have "job_at s (Suc i) = Some x"
    by (simp add: job_at_def)
  with \<open>x \<noteq> Finished\<close> show ?thesis by blast
qed

lemma job_progress:
  assumes inv: "engine_inv p s" and np: "\<not> panicked s"
    and job: "job_at s k = Some j" and j: "j \<noteq> Finished" and rc: "receiving (consumer s)"
  shows "\<exists>a s'. a \<in> {Fetch k, SendObj k, SendErr k, Exit k} \<and> exec p a s = Some s'"
proof -
  from active_waiting [OF inv job j] have opn: "\<not> objects_closed s" "\<not> errs_closed s"
    by (simp_all add: objects_closed_def errs_closed_def)
  show ?thesis
  proof (cases j)
    case Pending
    with job np have "\<exists>s'. exec p (Fetch k) s = Some s'"
      by (simp add: exec_def fetch_def)
    then show ?thesis by blast
  next
    case (Failing e)
    from receiving_recv_err [OF rc, of "handle p" e] obtain c' crash
      where "recv_err (handle p) e (consumer s) = Some (c', crash)" by blast
    with Failing job np opn have "\<exists>s'. exec p (SendErr k) s = Some s'"
      by (simp add: exec_def send_err_def)
    then show ?thesis by blast
  next
    case (Sending os)
    show ?thesis
    proof (cases os)
      case Nil
      with Sending job np have "\<exists>s'. exec p (Exit k) s = Some s'"
        by (simp add: exec_def exit_job_def)
      then show ?thesis by blast
    next
      case (Cons ob os')
      from receiving_recv_obj [OF rc, of ob] obtain c'
        where "recv_obj ob (consumer s) = Some c'" by blast
      with Cons Sending job np opn have "\<exists>s'. exec p (SendObj k) s = Some s'"
        by (simp add: exec_def send_obj_def)
      then show ?thesis by blast
    qed
  next
    case Returning
    with job np have "\<exists>s'. exec p (Exit k) s = Some s'"
      by (simp add: exec_def exit_job_def)
    then show ?thesis by blast
  next
    case Finished
    with j show ?thesis by simp
  qed
qed

lemma collect_progress:
  assumes inv: "engine_inv p s" and np: "\<not> panicked s" and c: "consumer s = Collecting c"
  shows "\<exists>a s'. a \<noteq> RecvErrClosed \<and> exec p a s = Some s'"
proof (cases "unfinished s = 0")
  case False
  from some_unfinished [OF False] obtain k j where "job_at s k = Some j" "j \<noteq> Finished"
    by blast
  from job_progress [OF inv np this] c show ?thesis
    by (auto simp: receiving_def)
next
  case True
  with inv have wg: "wg s = 0" and na: "closer s \<noteq> Absent" by (simp_all add: engine_inv_def)
  show ?thesis
  proof (cases "closer s = Waiting")
    case True
    with wg np have "\<exists>s'. exec p CloseObjects s = Some s'"
      by (simp add: exec_def close_objects_def)
    then show ?thesis by blast
  next
    case False
    with na have "objects_closed s"
      by (cases "closer s") (simp_all add: objects_closed_def)
    with c np have "\<exists>s'. exec p RecvObjClosed s = Some s'"
      by (simp add: exec_def recv_obj_closed_def)
    then show ?thesis by blast
  qed
qed

lemma sum_list_pick:
  "distinct ks \<Longrightarrow> a \<in> set ks \<Longrightarrow>
   sum_list (map (\<lambda>k. if a = k then Suc (f k) else f k) ks) = Suc (sum_list (map f ks))"
proof (induction ks)
  case Nil
  then show ?case by simp
next
  case (Cons k ks)
  show ?case
  proof (cases "a = k")
    case True
    with Cons.prems have "a \<notin> set ks" by simp
    then have "map (\<lambda>k. if a = k then Suc (f k) else f k) ks = map f ks"
      by (intro map_cong) auto
    then have "sum_list (map (\<lambda>k. if a = k then Suc (f k) else f k) ks) = sum_list (map f ks)"
      by (rule arg_cong)
    with True show ?thesis by simp
  next
    case False
    with Cons show ?thesis by simp
  qed
qed

lemma length_by_tag:
  "distinct ks \<Longrightarrow> \<forall>x \<in> set xs. fst x \<in> set ks \<Longrightarrow>
   length xs = sum_list (map (\<lambda>k. length (from_page k xs)) ks)"
proof (induction xs)
  case Nil
  then show ?case by (simp add: from_page_def)
next
  case (Cons x xs)
  from Cons.prems have x: "fst x \<in> set ks" by simp
  have "map (\<lambda>k. length (from_page k (x # xs))) ks
        = map (\<lambda>k. if fst x = k then Suc (length (from_page k xs)) else length (from_page k xs))
            ks"
    by (intro map_cong refl) (simp add: from_page_def)
  then have "sum_list (map (\<lambda>k. length (from_page k (x # xs))) ks)
        = sum_list (map (\<lambda>k. if fst x = k then Suc (length (from_page k xs))
                             else length (from_page k xs)) ks)"
    by (rule arg_cong)
  also have "\<dots> = Suc (sum_list (map (\<lambda>k. length (from_page k xs)) ks))"
    using Cons.prems(1) x by (rule sum_list_pick)
  also have "\<dots> = Suc (length xs)"
    using Cons.IH Cons.prems by simp
  finally show ?case by simp
qed

lemma length_by_page:
  assumes "\<forall>x \<in> set xs. 1 \<le> fst x \<and> fst x \<le> n"
  shows "length xs = sum_list (map (\<lambda>k. length (from_page k xs)) [1 ..< Suc n])"
proof (rule length_by_tag)
  show "distinct [1 ..< Suc n]" by (rule distinct_upt)
  from assms show "\<forall>x \<in> set xs. fst x \<in> set [1 ..< Suc n]" by auto
qed

lemma from_page_mem: "(k, x) \<in> set xs \<Longrightarrow> x \<in> set (from_page k xs)"
  by (force simp: from_page_def)

lemma delivered_decoded:
  assumes inv: "engine_inv p s" and mem: "(k, ob) \<in> set (delivered s)"
  shows "\<exists>os. page_outcome p k = Inr os \<and> ob \<in> set os"
proof -
  from inv mem have k: "1 \<le> k" "k \<le> length (jobs s)"
    by (auto simp: engine_inv_def)
  with inv have ok: "job_ok p s k" by (simp add: engine_inv_def)
  from from_page_mem [OF mem] have ne: "ob \<in> set (from_page k (delivered s))" .
  show ?thesis
  proof (cases "jobs s ! (k - 1)")
    case (Sending os)
    with ok ne show ?thesis by (auto simp: job_ok_def)
  next
    case Finished
    with ok ne show ?thesis by (cases "page_outcome p k") (auto simp: job_ok_def)
  qed (use ok ne in \<open>auto simp: job_ok_def\<close>)
qed

lemma errors_failed:
  assumes inv: "engine_inv p s" and mem: "(k, e) \<in> set (errors s)"
  shows "page_outcome p k = Inl e \<and> 1 \<le> k \<and> k \<le> length (jobs s)"
proof -
  from inv mem have k: "1 \<le> k" "k \<le> length (jobs s)"
    by (auto simp: engine_inv_def)
  with inv have ok: "job_ok p s k" by (simp add: engine_inv_def)
  from from_page_mem [OF mem] have ne: "e \<in> set (from_page k (errors s))" .
  have "page_outcome p k = Inl e"
  proof (cases "jobs s ! (k - 1)")
    case Returning
    with ok ne show ?thesis by (cases "page_outcome p k") (auto simp: job_ok_def)
  next
    case Finished
    with ok ne show ?thesis by (cases "page_outcome p k") (auto simp: job_ok_def)
  qed (use ok ne in \<open>auto simp: job_ok_def\<close>)
  with k show ?thesis by simp
qed

lemma finished_history:
  assumes inv: "engine_inv p s" and fin: "unfinished s = 0"
    and k: "1 \<le> k" "k \<le> length (jobs s)"
  shows "from_page k (delivered s) = decoded p k"
    and "from_page k (errors s) = (case page_outcome p k of Inl e \<Rightarrow> [e] | Inr os \<Rightarrow> [])"
proof -
  from unfinished_zero [OF fin k] have j: "jobs s ! (k - 1) = Finished" .
  from inv k have ok: "job_ok p s k" by (simp add: engine_inv_def)
  from ok j show "from_page k (delivered s) = decoded p k"
    by (cases "page_outcome p k") (simp_all add: job_ok_def decoded_def)
  from ok j show "from_page k (errors s) = (case page_outcome p k of Inl e \<Rightarrow> [e] | Inr os \<Rightarrow> [])"
    by (cases "page_outcome p k") (simp_all add: job_ok_def)
qed

lemma finished_delivered_length:
  assumes inv: "engine_inv p s" and fin: "unfinished s = 0"
  shows "length (delivered s)
           = sum_list (map (\<lambda>k. length (decoded p k)) [1 ..< Suc (length (jobs s))])"
proof -
  from inv have "\<forall>x \<in> set (delivered s). 1 \<le> fst x \<and> fst x \<le> length (jobs s)"
    by (simp add: engine_inv_def)
  then have "length (delivered s)
      = sum_list (map (\<lambda>k. length (from_page k (delivered s))) [1 ..< Suc (length (jobs s))])"
    by (rule length_by_page)
  also have "map (\<lambda>k. length (from_page k (delivered s))) [1 ..< Suc (length (jobs s))]
      = map (\<lambda>k. length (decoded p k)) [1 ..< Suc (length (jobs s))]"
  proof (intro map_cong refl)
    fix k
    assume "k \<in> set [1 ..< Suc (length (jobs s))]"
    then have "1 \<le> k" "k \<le> length (jobs s)" by auto
    from finished_history(1) [OF inv fin this]
    show "length (from_page k (delivered s)) = length (decoded p k)" by simp
  qed
  finally show ?thesis .
qed

lemma exec_length_jobs: "exec p a s = Some s' \<Longrightarrow> length (jobs s') = length (jobs s)"
proof (cases a)
  case (Fetch k)
  assume "exec p a s = Some s'"
  with Fetch have "fetch p k s = Some s'" by (simp add: exec_def split: if_splits)
  from fetch_Some [OF this] show ?thesis by (auto simp: set_job_def)
next
  case (SendObj k)
  assume "exec p a s = Some s'"
  with SendObj have "send_obj k s = Some s'" by (simp add: exec_def split: if_splits)
  from send_obj_Some [OF this] show ?thesis by (auto simp: set_job_def split: if_splits)
next
  case (SendErr k)
  assume "exec p a s = Some s'"
  with SendErr have "send_err p k s = Some s'" by (simp add: exec_def split: if_splits)
  from send_err_Some [OF this] show ?thesis by (auto simp: set_job_def split: if_splits)
next
  case (Exit k)
  assume "exec p a s = Some s'"
  with Exit have "exit_job k s = Some s'" by (simp add: exec_def split: if_splits)
  from exit_job_Some [OF this] show ?thesis by (auto simp: set_job_def split: if_splits)
qed (auto simp: exec_def close_objects_def close_errs_def recv_obj_closed_def
      recv_err_closed_def recv_quit_def deliver_def
      split: if_splits option.splits consumer.splits)

lemma run_length_jobs: "run p as s = Some s' \<Longrightarrow> length (jobs s') = length (jobs s)"
proof (induction as arbitrary: s)
  case Nil
  then show ?case by simp
next
  case (Cons a as)
  from Cons.prems obtain s1 where s1: "exec p a s = Some s1" and rest: "run p as s1 = Some s'"
    by (auto simp: bind_eq_Some_conv)
  from Cons.IH [OF rest] exec_length_jobs [OF s1] show ?case by simp
qed

lemma find_last_3:
  "FindAllStringSubmatch (link_value url_page_3 ''last'') = [(url_page_3, ''last'')]"
  by (simp add: parser_eval cong: option.case_cong_weak)

lemma newlink_3:
  "newlink plain_url_parse plain_query_page url_page_3 = Inr \<lparr>url = url_page_3, page = 3\<rparr>"
  by (simp add: parser_eval cong: option.case_cong_weak)

lemma firstReq_three_pages:
  "firstReq three_pages
     = FirstOk 3 \<lparr>link_header = link_value url_page_3 ''last'', body = ''[]''\<rparr>"
  by (simp add: firstReq_def three_pages_def stub_get_def newLinkedResource_def
      find_last_3 newlink_3)

lemmas step_eval = exec_def fetch_def send_obj_def send_err_def exit_job_def close_objects_def
  close_errs_def recv_obj_closed_def recv_err_closed_def recv_quit_def deliver_def
  job_at_def set_job_def objects_closed_def errs_closed_def receiving_def page_outcome_def
  start_def

lemma three_pages_run:
  "run three_pages three_pages_schedule (channel three_pages) = Some three_pages_final"
  unfolding channel_ok [OF firstReq_three_pages, simplified]
  by (simp add: three_pages_schedule_def three_pages_final_def three_pages_def stub_get_def
      step_eval eval_nat_numeral)

lemma find_last_2:
  "FindAllStringSubmatch (link_value url_page_2 ''last'') = [(url_page_2, ''last'')]"
  by (simp add: parser_eval cong: option.case_cong_weak)

lemma firstReq_nil_pages:
  "firstReq nil_pages
     = FirstOk 2 \<lparr>link_header = link_value url_page_2 ''last'', body = ''[]''\<rparr>"
  by (simp add: firstReq_def nil_pages_def stub_get_def newLinkedResource_def
      find_last_2 newlink_2)

lemma firstReq_failing_pages:
  "firstReq failing_pages
     = FirstOk 2 \<lparr>link_header = link_value url_page_2 ''last'', body = ''[]''\<rparr>"
  by (simp add: firstReq_def failing_pages_def stub_get_def newLinkedResource_def
      find_last_2 newlink_2)

lemma init_nil_pages:
  "channel nil_pages =
     \<lparr>jobs = [Pending, Pending], wg = 2, closer = Waiting, consumer = Collecting [],
      results = [], delivered = [], errors = [], gets = 1, panicked = False\<rparr>"
  unfolding channel_ok [OF firstReq_nil_pages, simplified]
  by (simp add: nil_pages_def start_def eval_nat_numeral)

lemma nil_pages_run:
  "run nil_pages [Fetch 1, SendObj 1, SendObj 1, Fetch 2] (channel nil_pages)
     = Some nil_pages_final"
  unfolding init_nil_pages
  by (simp add: nil_pages_final_def nil_pages_def stub_get_def step_eval eval_nat_numeral)

lemma init_failing_pages:
  "channel failing_pages =
     \<lparr>jobs = [Pending, Pending], wg = 2, closer = Waiting, consumer = Collecting [],
      results = [], delivered = [], errors = [], gets = 1, panicked = False\<rparr>"
  unfolding channel_ok [OF firstReq_failing_pages, simplified]
  by (simp add: failing_pages_def start_def eval_nat_numeral)

lemma failing_pages_run:
  "run failing_pages [Fetch 1, Fetch 2, SendErr 1, Exit 1] (channel failing_pages)
     = Some failing_pages_final"
  unfolding init_failing_pages
  by (simp add: failing_pages_final_def failing_pages_def stub_get_def step_eval
      eval_nat_numeral)

lemma nil_pages_stuck: "enabled nil_pages nil_pages_final = []"
  by (simp add: enabled_def candidates_def nil_pages_final_def nil_pages_def step_eval
      eval_nat_numeral)

lemma failing_pages_stuck: "enabled failing_pages failing_pages_final = []"
  by (simp add: enabled_def candidates_def failing_pages_final_def failing_pages_def step_eval
      eval_nat_numeral)

lemma list_all_pages:
  "list_all P [1 ..< Suc n] \<longleftrightarrow> (\<forall>k. 1 \<le> k \<and> k \<le> n \<longrightarrow> P k)"
  by (auto simp: list_all_iff)

lemma pages_decodedD:
  assumes "pages_decoded p n" and "1 \<le> k" and "k \<le> n"
  shows "\<exists>os. page_outcome p k = Inr os"
proof -
  from assms(1) have "\<forall>k. 1 \<le> k \<and> k \<le> n \<longrightarrow>
      (case page_outcome p k of Inl e \<Rightarrow> False | Inr os \<Rightarrow> True)"
    unfolding pages_decoded_def list_all_pages .
  with assms(2,3) show ?thesis by (cases "page_outcome p k") auto
qed

lemma no_nil_objectsD:
  assumes "no_nil_objects p n" and "1 \<le> k" and "k \<le> n"
  shows "None \<notin> set (decoded p k)"
proof -
  from assms(1) have "\<forall>k. 1 \<le> k \<and> k \<le> n \<longrightarrow> None \<notin> set (decoded p k)"
    unfolding no_nil_objects_def list_all_pages .
  with assms(2,3) show ?thesis by blast
qed

lemma collect_reach:
  assumes first: "firstReq p = FirstOk n resp" and n: "1 \<le> n" and rd: "reader p = Collect"
    and run: "run p as (channel p) = Some s"
  shows "engine_inv p s" and "collect_inv s" and "\<not> panicked s"
    and "length (jobs s) = nat n"
proof -
  have i0: "engine_inv p (channel p)" using first n by (rule init_inv)
  have c0: "collect_inv (channel p)" using first n rd by (rule init_collect_inv)
  have p0: "\<not> panicked (channel p)" by (simp add: channel_ok [OF first n])
  show "engine_inv p s" using i0 run by (rule run_inv)
  show "collect_inv s" using c0 run by (rule run_collect_inv)
  show "\<not> panicked s" using i0 c0 p0 run by (rule run_no_panic_collect)
  from run_length_jobs [OF run] show "length (jobs s) = nat n"
    by (simp add: channel_ok [OF first n])
qed

lemma collected_sequence_complete:
  assumes inv: "engine_inv p s" and ci: "collect_inv s"
    and nonil: "no_nil_objects p (length (jobs s))"
    and c: "consumer s = Collected (Some c) None"
  shows "unfinished s = 0 \<and> map snd (delivered s) = map Some c"
proof -
  from ci c have alt: "(objects_closed s \<and> map snd (delivered s) = map Some c)
      \<or> map snd (delivered s) = map Some c @ [None]"
    by (simp add: collect_inv_def)
  have "map snd (delivered s) \<noteq> map Some c @ [None]"
  proof
    assume "map snd (delivered s) = map Some c @ [None]"
    then have "None \<in> set (map snd (delivered s))" by simp
    then obtain k where mem: "(k, None) \<in> set (delivered s)" by auto
    from delivered_decoded [OF inv mem] obtain os where
      os: "page_outcome p k = Inr os" "None \<in> set os" by blast
    from inv mem have "1 \<le> k" "k \<le> length (jobs s)" by (auto simp: engine_inv_def)
    with nonil have "None \<notin> set (decoded p k)"
      by (rule no_nil_objectsD)
    with os show False by (simp add: decoded_def)
  qed
  with alt have closed: "objects_closed s" and del: "map snd (delivered s) = map Some c"
    by auto
  from closed inv have "unfinished s = 0"
    by (auto simp: objects_closed_def engine_inv_def)
  with del show ?thesis by simp
qed

subsection \<open>What \<open>collect\<close> returns when every page decodes\<close>

text \<open>
  Claim C1, as the claim states it, fails: two pages, the decode function succeeds on
  both and returns three objects for page 1, the second of them nil, and one object for
  page 2; \<open>collect\<close> returns one object and a nil error, not four, and no step is left.
\<close>

theorem collect_length_counterexample:
  "firstReq nil_pages = FirstOk 2 \<lparr>link_header = link_value url_page_2 ''last'', body = ''[]''\<rparr>
   \<and> pages_decoded nil_pages 2
   \<and> sum_list (map (\<lambda>k. length (decoded nil_pages k)) [1 ..< Suc 2]) = 4
   \<and> run nil_pages [Fetch 1, SendObj 1, SendObj 1, Fetch 2] (channel nil_pages)
       = Some nil_pages_final
   \<and> consumer nil_pages_final = Collected (Some [1]) None
   \<and> enabled nil_pages nil_pages_final = []"
proof (intro conjI)
  show "pages_decoded nil_pages 2"
    by (simp add: pages_decoded_def page_outcome_def nil_pages_def stub_get_def eval_nat_numeral)
  show "sum_list (map (\<lambda>k. length (decoded nil_pages k)) [1 ..< Suc 2]) = 4"
    by (simp add: decoded_def page_outcome_def nil_pages_def stub_get_def eval_nat_numeral)
  show "consumer nil_pages_final = Collected (Some [1]) None"
    by (simp add: nil_pages_final_def)
qed (rule firstReq_nil_pages nil_pages_run nil_pages_stuck)+

text \<open>
  Claim C1, amended. Let the first response advertise \<open>last\<close> page \<open>n \<ge> 1\<close>, let the
  request and the decode succeed on every page \<open>1..n\<close>, and let no decoded list hold a nil
  object. Then, whatever the schedule: if \<open>collect\<close> has returned, it returned a nil
  error and a sequence whose length is the sum of the lengths of the decoded lists of
  pages \<open>1..n\<close>; while it has not returned, a step other than an idle receive of nil from
  the closed error channel can be taken; and a schedule holds at most \<open>remaining\<close> such
  steps, so \<open>collect\<close> does return.
\<close>

theorem collect_length:
  assumes first: "firstReq p = FirstOk n resp" and n: "1 \<le> n" and rd: "reader p = Collect"
    and ok: "pages_decoded p (nat n)" and nonil: "no_nil_objects p (nat n)"
    and run: "run p as (channel p) = Some s"
  shows "(\<forall>r eo. consumer s = Collected r eo \<longrightarrow>
            eo = None
            \<and> (\<exists>c. r = Some c
                 \<and> length c = sum_list (map (\<lambda>k. length (decoded p k)) [1 ..< Suc (nat n)])))
       \<and> (\<forall>c. consumer s = Collecting c \<longrightarrow>
            (\<exists>a s'. a \<noteq> RecvErrClosed \<and> exec p a s = Some s'))
       \<and> (\<exists>c r eo. consumer s = Collecting c \<or> consumer s = Collected r eo)
       \<and> length (filter (\<lambda>a. a \<noteq> RecvErrClosed) as) \<le> remaining p (channel p)"
proof (intro conjI allI impI)
  note reach = collect_reach [OF first n rd run]
  fix r eo
  assume c: "consumer s = Collected r eo"
  show eo: "eo = None"
  proof (cases eo)
    case (Some e)
    with reach(2) c have "map snd (errors s) = [e]" by (simp add: collect_inv_def)
    then have "e \<in> set (map snd (errors s))" by simp
    then obtain k where "(k, e) \<in> set (errors s)" by auto
    from errors_failed [OF reach(1) this] reach(4)
    have bad: "page_outcome p k = Inl e" and k: "1 \<le> k" "k \<le> nat n" by simp_all
    from pages_decodedD [OF ok k] bad show ?thesis by simp
  qed simp
  from reach(2) c eo obtain c' where r: "r = Some c'"
    by (cases r) (auto simp: collect_inv_def)
  from nonil reach(4) have "no_nil_objects p (length (jobs s))" by simp
  from collected_sequence_complete [OF reach(1,2) this] c eo r
  have fin: "unfinished s = 0" and del: "map snd (delivered s) = map Some c'" by simp_all
  from del have "length c' = length (delivered s)"
    by (metis length_map)
  also have "\<dots> = sum_list (map (\<lambda>k. length (decoded p k)) [1 ..< Suc (nat n)])"
    using finished_delivered_length [OF reach(1) fin] reach(4) by simp
  finally show "\<exists>c. r = Some c
      \<and> length c = sum_list (map (\<lambda>k. length (decoded p k)) [1 ..< Suc (nat n)])"
    using r by simp
next
  note reach = collect_reach [OF first n rd run]
  fix c
  assume "consumer s = Collecting c"
  with reach(1,3) show "\<exists>a s'. a \<noteq> RecvErrClosed \<and> exec p a s = Some s'"
    by (intro collect_progress)
next
  note reach = collect_reach [OF first n rd run]
  from reach(2) show "\<exists>c r eo. consumer s = Collecting c \<or> consumer s = Collected r eo"
    by (cases "consumer s") (simp_all add: collect_inv_def)
next
  have "collect_inv (channel p)" using first n rd by (rule init_collect_inv)
  from collect_run_bound [OF this run]
  show "length (filter (\<lambda>a. a \<noteq> RecvErrClosed) as) \<le> remaining p (channel p)"
    by simp
qed

theorem collect_length_witness:
  "pages_decoded three_pages (nat 3) \<and> no_nil_objects three_pages (nat 3)
   \<and> run three_pages three_pages_schedule (channel three_pages) = Some three_pages_final
   \<and> consumer three_pages_final = Collected (Some [3, 1, 5, 6, 4, 2]) None
   \<and> sum_list (map (\<lambda>k. length (decoded three_pages k)) [1 ..< Suc (nat 3)]) = 6
   \<and> length (filter (\<lambda>a. a \<noteq> RecvErrClosed) three_pages_schedule)
       \<le> remaining three_pages (channel three_pages)"
proof -
  have ok: "pages_decoded three_pages (nat 3)"
    by (simp add: pages_decoded_def page_outcome_def three_pages_def stub_get_def
        eval_nat_numeral)
  have nonil: "no_nil_objects three_pages (nat 3)"
    by (simp add: no_nil_objects_def decoded_def page_outcome_def three_pages_def stub_get_def
        eval_nat_numeral)
  have c: "consumer three_pages_final = Collected (Some [3, 1, 5, 6, 4, 2]) None"
    by (simp add: three_pages_final_def)
  have total: "sum_list (map (\<lambda>k. length (decoded three_pages k)) [1 ..< Suc (nat 3)]) = 6"
    by (simp add: decoded_def page_outcome_def three_pages_def stub_get_def eval_nat_numeral)
  have rd: "reader three_pages = Collect" by (simp add: three_pages_def)
  from collect_length [OF firstReq_three_pages _ rd ok nonil three_pages_run]
  have "length (filter (\<lambda>a. a \<noteq> RecvErrClosed) three_pages_schedule)
       \<le> remaining three_pages (channel three_pages)"
    by simp
  with ok nonil c total three_pages_run show ?thesis by (intro conjI)
qed


lemma job_at_set_job_other:
  assumes "1 \<le> k" and "k' \<noteq> k"
  shows "job_at (set_job k j s) k' = job_at s k'"
proof (cases "1 \<le> k' \<and> k' \<le> length (jobs s)")
  case True
  with assms have "k' - 1 \<noteq> k - 1" by arith
  with True show ?thesis by (simp add: job_at_def set_job_def)
next
  case False
  then show ?thesis by (auto simp: job_at_def set_job_def)
qed


subsection \<open>What \<open>collect\<close> returns after an error\<close>



subsection \<open>A nil object reads as the end of the stream\<close>



subsection \<open>A reader that keeps receiving\<close>

lemma exec_draining:
  assumes "consumer s = Draining" and "exec p a s = Some s'"
  shows "consumer s' = Draining"
proof (cases a)
  case (Fetch k)
  with assms(2) have "fetch p k s = Some s'" by (simp add: exec_def split: if_splits)
  from fetch_Some [OF this] assms(1) show ?thesis by (auto simp: set_job_def)
next
  case (SendObj k)
  with assms(2) have "send_obj k s = Some s'" by (simp add: exec_def split: if_splits)
  from send_obj_Some [OF this] assms(1) show ?thesis
    by (auto simp: set_job_def split: if_splits)
next
  case (SendErr k)
  with assms(2) have "send_err p k s = Some s'" by (simp add: exec_def split: if_splits)
  from send_err_Some [OF this] assms(1) show ?thesis
    by (auto simp: set_job_def split: if_splits)
next
  case (Exit k)
  with assms(2) have "exit_job k s = Some s'" by (simp add: exec_def split: if_splits)
  from exit_job_Some [OF this] assms(1) show ?thesis
    by (auto simp: set_job_def split: if_splits)
qed (use assms in \<open>auto simp: exec_def close_objects_def close_errs_def recv_obj_closed_def
      recv_err_closed_def recv_quit_def deliver_def split: if_splits\<close>)

lemma drain_reach:
  assumes first: "firstReq p = FirstOk n resp" and n: "1 \<le> n" and rd: "reader p = Drain"
    and run: "run p as s0 = Some s" and s0: "s0 = channel p"
  shows "consumer s = Draining \<and> \<not> panicked s"
  using run
proof (induction as arbitrary: s rule: rev_induct)
  case Nil
  then show ?case by (auto simp: s0 channel_ok [OF first n] rd start_def)
next
  case (snoc a as)
  have split: "run p (as @ [a]) s0 = Option.bind (run p as s0) (exec p a)"
    by (induction as arbitrary: s0) (simp_all add: Option.bind_assoc cong: Option.bind_cong)
  with snoc.prems obtain s1 where s1: "run p as s0 = Some s1" and st: "exec p a s1 = Some s"
    by (auto simp: bind_eq_Some_conv)
  from snoc.IH [OF s1] have d: "consumer s1 = Draining" by simp
  have inv: "engine_inv p s1"
    using init_inv [OF first n] s1 unfolding s0 by (rule run_inv)
  from exec_draining [OF d st] exec_no_panic [OF inv st] d show ?case by simp
qed

lemma drain_progress:
  assumes inv: "engine_inv p s" and np: "\<not> panicked s" and c: "consumer s = Draining"
    and opn: "closer s \<noteq> ClosedBoth"
  shows "\<exists>a s'. a \<noteq> RecvErrClosed \<and> a \<noteq> RecvObjClosed \<and> exec p a s = Some s'"
proof (cases "unfinished s = 0")
  case False
  from some_unfinished [OF False] obtain k j where "job_at s k = Some j" "j \<noteq> Finished"
    by blast
  from job_progress [OF inv np this] c show ?thesis
    by (auto simp: receiving_def)
next
  case True
  with inv have wg: "wg s = 0" and na: "closer s \<noteq> Absent" by (simp_all add: engine_inv_def)
  show ?thesis
  proof (cases "closer s = Waiting")
    case True
    with wg np have "\<exists>s'. exec p CloseObjects s = Some s'"
      by (simp add: exec_def close_objects_def)
    then show ?thesis by blast
  next
    case False
    with na opn have "closer s = ClosedObjects"
      by (cases "closer s") simp_all
    with np have "\<exists>s'. exec p CloseErrs s = Some s'"
      by (simp add: exec_def close_errs_def)
    then show ?thesis by blast
  qed
qed

lemma drain_run_bound:
  assumes "consumer s = Draining" and "run p as s = Some s'"
  shows "length (filter (\<lambda>a. a \<noteq> RecvErrClosed \<and> a \<noteq> RecvObjClosed) as) + remaining p s'
           \<le> remaining p s"
proof (rule run_bound [where I = "\<lambda>s. consumer s = Draining"
      and busy = "\<lambda>a. a \<noteq> RecvErrClosed \<and> a \<noteq> RecvObjClosed", OF _ _ _ assms])
  fix s a s'
  assume d: "consumer (s :: 'a state) = Draining" and st: "exec p a s = Some s'"
  show "consumer s' = Draining" using d st by (rule exec_draining)
  {
    assume "\<not> (a \<noteq> RecvErrClosed \<and> a \<noteq> RecvObjClosed)"
    then have "a = RecvErrClosed \<or> a = RecvObjClosed" by blast
    then have "s' = s"
    proof
      assume "a = RecvErrClosed"
      with st show ?thesis
        by (auto simp: exec_def split: if_splits dest: recv_err_closed_same)
    next
      assume "a = RecvObjClosed"
      with st d show ?thesis
        by (auto simp: exec_def recv_obj_closed_def split: if_splits)
    qed
    then show "remaining p s' \<le> remaining p s" by simp
  }
  {
    assume b: "a \<noteq> RecvErrClosed \<and> a \<noteq> RecvObjClosed"
    then have b1: "a \<noteq> RecvErrClosed"
      and b2: "a = RecvObjClosed \<longrightarrow> consumer s \<noteq> Draining" by simp_all
    from st b1 b2 show "remaining p s' < remaining p s" by (rule exec_lowers)
  }
qed

subsection \<open>The two closes\<close>

lemma exec_closer:
  assumes "exec p a s = Some s'"
  shows "closer s' = (if a = CloseObjects then ClosedObjects
                      else if a = CloseErrs then ClosedBoth else closer s)"
    and "a = CloseObjects \<longrightarrow> closer s = Waiting \<and> wg s = 0"
    and "a = CloseErrs \<longrightarrow> closer s = ClosedObjects"
proof -
  have "closer s' = (if a = CloseObjects then ClosedObjects
                      else if a = CloseErrs then ClosedBoth else closer s)
      \<and> (a = CloseObjects \<longrightarrow> closer s = Waiting \<and> wg s = 0)
      \<and> (a = CloseErrs \<longrightarrow> closer s = ClosedObjects)"
  proof (cases a)
    case (Fetch k)
    with assms have "fetch p k s = Some s'" by (simp add: exec_def split: if_splits)
    from fetch_Some [OF this] Fetch show ?thesis by (auto simp: set_job_def)
  next
    case (SendObj k)
    with assms have "send_obj k s = Some s'" by (simp add: exec_def split: if_splits)
    from send_obj_Some [OF this] SendObj show ?thesis
      by (auto simp: set_job_def split: if_splits)
  next
    case (SendErr k)
    with assms have "send_err p k s = Some s'" by (simp add: exec_def split: if_splits)
    from send_err_Some [OF this] SendErr show ?thesis
      by (auto simp: set_job_def split: if_splits)
  next
    case (Exit k)
    with assms have "exit_job k s = Some s'" by (simp add: exec_def split: if_splits)
    from exit_job_Some [OF this] Exit show ?thesis
      by (auto simp: set_job_def split: if_splits)
  qed (use assms in \<open>auto simp: exec_def close_objects_def close_errs_def recv_obj_closed_def
      recv_err_closed_def recv_quit_def deliver_def
      split: if_splits option.splits consumer.splits\<close>)
  then show "closer s' = (if a = CloseObjects then ClosedObjects
                      else if a = CloseErrs then ClosedBoth else closer s)"
    and "a = CloseObjects \<longrightarrow> closer s = Waiting \<and> wg s = 0"
    and "a = CloseErrs \<longrightarrow> closer s = ClosedObjects"
    by blast+
qed

lemma run_close_counts:
  "run p as s = Some s' \<Longrightarrow>
   count_list as CloseObjects + (if objects_closed s then 1 else 0)
     = (if objects_closed s' then 1 else 0)
   \<and> count_list as CloseErrs + (if errs_closed s then 1 else 0)
     = (if errs_closed s' then 1 else 0)"
proof (induction as arbitrary: s)
  case Nil
  then show ?case by simp
next
  case (Cons a as)
  from Cons.prems obtain s1 where s1: "exec p a s = Some s1" and rest: "run p as s1 = Some s'"
    by (auto simp: bind_eq_Some_conv)
  note ih = Cons.IH [OF rest]
  note cl = exec_closer [OF s1]
  show ?case
  proof (cases "a = CloseObjects")
    case True
    with cl have "closer s = Waiting" "closer s1 = ClosedObjects" by simp_all
    with ih True show ?thesis by (simp add: objects_closed_def errs_closed_def)
  next
    case False
    show ?thesis
    proof (cases "a = CloseErrs")
      case True
      with cl have "closer s = ClosedObjects" "closer s1 = ClosedBoth" by simp_all
      with ih True show ?thesis by (simp add: objects_closed_def errs_closed_def)
    next
      case no: False
      with False cl have "closer s1 = closer s" by simp
      with ih False no show ?thesis by (simp add: objects_closed_def errs_closed_def)
    qed
  qed
qed

lemma job_history:
  assumes inv: "engine_inv p s" and k: "1 \<le> k" "k \<le> length (jobs s)"
  shows "(\<exists>rest. decoded p k = from_page k (delivered s) @ rest)
       \<and> (case page_outcome p k of
             Inl e \<Rightarrow> from_page k (errors s) = [] \<or> from_page k (errors s) = [e]
           | Inr os \<Rightarrow> from_page k (errors s) = [])"
proof -
  from inv k have ok: "job_ok p s k" by (simp add: engine_inv_def)
  show ?thesis
  proof (cases "jobs s ! (k - 1)")
    case Pending
    with ok show ?thesis by (cases "page_outcome p k") (simp_all add: job_ok_def)
  next
    case (Failing e)
    with ok show ?thesis by (simp add: job_ok_def decoded_def)
  next
    case (Sending os)
    with ok show ?thesis by (simp add: job_ok_def decoded_def)
  next
    case Returning
    with ok show ?thesis by (cases "page_outcome p k") (simp_all add: job_ok_def decoded_def)
  next
    case Finished
    with ok show ?thesis by (cases "page_outcome p k") (simp_all add: job_ok_def decoded_def)
  qed
qed

lemma send_err_others:
  assumes "exec p (SendErr k) s = Some s'" and "k' \<noteq> k"
  shows "job_at s' k' = job_at s k'"
proof -
  from assms(1) have st: "send_err p k s = Some s'" by (simp add: exec_def split: if_splits)
  from send_err_Some [OF st] obtain e where
    job: "job_at s k = Some (Failing e)"
    and eff: "if errs_closed s then s' = s\<lparr>panicked := True\<rparr>
      else \<exists>c crash. recv_err (handle p) e (consumer s) = Some (c, crash)
             \<and> s' = set_job k Returning
                      (s\<lparr>consumer := c, errors := errors s @ [(k, e)], panicked := crash\<rparr>)"
    by blast
  from job have k: "1 \<le> k" by (simp add: job_at_Some)
  show ?thesis
  proof (cases "errs_closed s")
    case True
    with eff have "jobs s' = jobs s" by simp
    then show ?thesis by (rule job_at_same)
  next
    case False
    with eff obtain c crash where
      s': "s' = set_job k Returning
                 (s\<lparr>consumer := c, errors := errors s @ [(k, e)], panicked := crash\<rparr>)"
      by auto
    show ?thesis
      unfolding s' job_at_set_job_other [OF k assms(2)] by (rule job_at_same) simp
  qed
qed

lemma find_next_2:
  "FindAllStringSubmatch (link_value url_page_2 ''next'') = [(url_page_2, ''next'')]"
  by (simp add: parser_eval cong: option.case_cong_weak)

lemma firstReq_drained_pages:
  "firstReq drained_pages
     = FirstOk 2 \<lparr>link_header = link_value url_page_2 ''last'', body = ''[]''\<rparr>"
  by (simp add: firstReq_def drained_pages_def stub_get_def newLinkedResource_def
      find_last_2 newlink_2)

lemma init_drained_pages:
  "channel drained_pages =
     \<lparr>jobs = [Pending, Pending], wg = 2, closer = Waiting, consumer = Draining,
      results = [], delivered = [], errors = [], gets = 1, panicked = False\<rparr>"
  unfolding channel_ok [OF firstReq_drained_pages, simplified]
  by (simp add: drained_pages_def start_def eval_nat_numeral)

lemma drained_pages_run:
  "run drained_pages drained_pages_schedule (channel drained_pages)
     = Some drained_pages_final"
  unfolding init_drained_pages
  by (simp add: drained_pages_schedule_def drained_pages_final_def drained_pages_def
      stub_get_def step_eval eval_nat_numeral)

lemma firstReq_no_last_page: "firstReq no_last_page = FirstErr CouldNotFindLastPage"
  by (simp add: firstReq_def no_last_page_def newLinkedResource_def find_next_2 newlink_2)

lemma firstReq_refused: "firstReq refused = FirstErr (External ''connection refused'')"
  by (simp add: firstReq_def refused_def)

subsection \<open>What the jobs deliver\<close>

text \<open>
  Claim C2, as the claim states it, fails: two pages read by \<open>collect\<close>, page 1 does not
  decode and page 2 decodes to one object. After \<open>collect\<close> has taken the error of page 1
  and returned, no step is left, and the object of page 2 has not been delivered: its job
  stands at its send for ever.
\<close>

theorem page_jobs_deliver_counterexample:
  "run failing_pages [Fetch 1, Fetch 2, SendErr 1, Exit 1] (channel failing_pages)
     = Some failing_pages_final
   \<and> enabled failing_pages failing_pages_final = []
   \<and> page_outcome failing_pages 2 = Inr [Some 7]
   \<and> job_at failing_pages_final 2 = Some (Sending [Some 7])
   \<and> delivered failing_pages_final = []"
proof (intro conjI)
  show "page_outcome failing_pages 2 = Inr [Some 7]"
    by (simp add: page_outcome_def failing_pages_def stub_get_def)
  show "job_at failing_pages_final 2 = Some (Sending [Some 7])"
    by (simp add: failing_pages_final_def job_at_def)
  show "delivered failing_pages_final = []"
    by (simp add: failing_pages_final_def)
qed (rule failing_pages_run failing_pages_stuck)+

text \<open>
  Claim C2, amended. Let the first response advertise \<open>last\<close> page \<open>n \<ge> 1\<close>; take any
  reader and any schedule. What has been received from the job of a page is a prefix of
  that page's decoded list, so every object is delivered at most once and in the page's
  order; a page that failed has pushed no error or exactly its own, a page that decoded
  has pushed none; and the error send of a job changes no other job. When the reader
  keeps receiving from both channels, then once both are closed every object of every
  decoded page has been delivered exactly once and every failed page has pushed exactly
  one error; until then a step that is not an idle receive of nil can be taken, and a
  schedule holds at most \<open>remaining\<close> such steps.
\<close>

theorem page_jobs_deliver:
  assumes first: "firstReq p = FirstOk n resp" and n: "1 \<le> n"
    and run: "run p as (channel p) = Some s"
  shows "(\<forall>k. 1 \<le> k \<and> k \<le> nat n \<longrightarrow>
            (\<exists>rest. decoded p k = from_page k (delivered s) @ rest)
            \<and> (case page_outcome p k of
                  Inl e \<Rightarrow> from_page k (errors s) = [] \<or> from_page k (errors s) = [e]
                | Inr os \<Rightarrow> from_page k (errors s) = []))
       \<and> (\<forall>x \<in> set (delivered s). 1 \<le> fst x \<and> fst x \<le> nat n)
       \<and> (\<forall>x \<in> set (errors s). 1 \<le> fst x \<and> fst x \<le> nat n)
       \<and> (\<forall>k k' s'. exec p (SendErr k) s = Some s' \<and> k' \<noteq> k \<longrightarrow> job_at s' k' = job_at s k')
       \<and> (reader p = Drain \<longrightarrow>
            (closer s = ClosedBoth \<longrightarrow>
               (\<forall>k. 1 \<le> k \<and> k \<le> nat n \<longrightarrow>
                  from_page k (delivered s) = decoded p k
                  \<and> from_page k (errors s)
                      = (case page_outcome p k of Inl e \<Rightarrow> [e] | Inr os \<Rightarrow> [])))
            \<and> (closer s \<noteq> ClosedBoth \<longrightarrow>
                 (\<exists>a s'. a \<noteq> RecvErrClosed \<and> a \<noteq> RecvObjClosed \<and> exec p a s = Some s'))
            \<and> length (filter (\<lambda>a. a \<noteq> RecvErrClosed \<and> a \<noteq> RecvObjClosed) as)
                 \<le> remaining p (channel p))"
proof -
  have inv: "engine_inv p s"
    using init_inv [OF first n] run by (rule run_inv)
  have len: "length (jobs s) = nat n"
    using run_length_jobs [OF run] by (simp add: channel_ok [OF first n])
  have a: "(\<exists>rest. decoded p k = from_page k (delivered s) @ rest)
            \<and> (case page_outcome p k of
                  Inl e \<Rightarrow> from_page k (errors s) = [] \<or> from_page k (errors s) = [e]
                | Inr os \<Rightarrow> from_page k (errors s) = [])"
    if "1 \<le> k \<and> k \<le> nat n" for k
    using that len by (intro job_history [OF inv]) simp_all
  have b: "\<forall>x \<in> set (delivered s). 1 \<le> fst x \<and> fst x \<le> nat n"
    "\<forall>x \<in> set (errors s). 1 \<le> fst x \<and> fst x \<le> nat n"
    using inv len by (simp_all add: engine_inv_def)
  have c: "job_at s' k' = job_at s k'"
    if "exec p (SendErr k) s = Some s' \<and> k' \<noteq> k" for k k' s'
    using that by (intro send_err_others [of p k s s' k']) simp_all
  have d: "(closer s = ClosedBoth \<longrightarrow>
               (\<forall>k. 1 \<le> k \<and> k \<le> nat n \<longrightarrow>
                  from_page k (delivered s) = decoded p k
                  \<and> from_page k (errors s)
                      = (case page_outcome p k of Inl e \<Rightarrow> [e] | Inr os \<Rightarrow> [])))
            \<and> (closer s \<noteq> ClosedBoth \<longrightarrow>
                 (\<exists>a s'. a \<noteq> RecvErrClosed \<and> a \<noteq> RecvObjClosed \<and> exec p a s = Some s'))
            \<and> length (filter (\<lambda>a. a \<noteq> RecvErrClosed \<and> a \<noteq> RecvObjClosed) as)
                 \<le> remaining p (channel p)"
    if rd: "reader p = Drain"
  proof (intro conjI impI allI)
    from drain_reach [OF first n rd run refl]
    have dr: "consumer s = Draining" and np: "\<not> panicked s" by simp_all
    {
      fix k
      assume cl: "closer s = ClosedBoth" and k: "1 \<le> k \<and> k \<le> nat n"
      from cl inv have fin: "unfinished s = 0" by (simp add: engine_inv_def)
      from k len have k': "1 \<le> k" "k \<le> length (jobs s)" by simp_all
      from finished_history [OF inv fin k']
      show "from_page k (delivered s) = decoded p k"
        and "from_page k (errors s) = (case page_outcome p k of Inl e \<Rightarrow> [e] | Inr os \<Rightarrow> [])"
        by simp_all
    }
    {
      assume "closer s \<noteq> ClosedBoth"
      with inv np dr
      show "\<exists>a s'. a \<noteq> RecvErrClosed \<and> a \<noteq> RecvObjClosed \<and> exec p a s = Some s'"
        by (intro drain_progress)
    }
    have "consumer (channel p) = Draining"
      by (simp add: channel_ok [OF first n] rd start_def)
    from drain_run_bound [OF this run]
    show "length (filter (\<lambda>a. a \<noteq> RecvErrClosed \<and> a \<noteq> RecvObjClosed) as)
                 \<le> remaining p (channel p)"
      by simp
  qed
  show ?thesis
  proof (intro conjI)
    show "\<forall>k k' s'. exec p (SendErr k) s = Some s' \<and> k' \<noteq> k \<longrightarrow> job_at s' k' = job_at s k'"
      using c by blast
    show "reader p = Drain \<longrightarrow>
            (closer s = ClosedBoth \<longrightarrow>
               (\<forall>k. 1 \<le> k \<and> k \<le> nat n \<longrightarrow>
                  from_page k (delivered s) = decoded p k
                  \<and> from_page k (errors s)
                      = (case page_outcome p k of Inl e \<Rightarrow> [e] | Inr os \<Rightarrow> [])))
            \<and> (closer s \<noteq> ClosedBoth \<longrightarrow>
                 (\<exists>a s'. a \<noteq> RecvErrClosed \<and> a \<noteq> RecvObjClosed \<and> exec p a s = Some s'))
            \<and> length (filter (\<lambda>a. a \<noteq> RecvErrClosed \<and> a \<noteq> RecvObjClosed) as)
                 \<le> remaining p (channel p)"
      using d by (rule impI)
  qed (use a b in \<open>simp_all\<close>)
qed

theorem page_jobs_deliver_witness:
  "run drained_pages drained_pages_schedule (channel drained_pages)
     = Some drained_pages_final
   \<and> reader drained_pages = Drain
   \<and> closer drained_pages_final = ClosedBoth
   \<and> from_page 1 (delivered drained_pages_final) = [Some 1, Some 2]
   \<and> decoded drained_pages 1 = [Some 1, Some 2]
   \<and> page_outcome drained_pages 2 = Inl (External ''connection reset'')
   \<and> from_page 2 (errors drained_pages_final) = [External ''connection reset'']"
proof -
  have rd: "reader drained_pages = Drain" by (simp add: drained_pages_def)
  have cl: "closer drained_pages_final = ClosedBoth" by (simp add: drained_pages_final_def)
  have d1: "decoded drained_pages 1 = [Some 1, Some 2]"
    by (simp add: decoded_def page_outcome_def drained_pages_def stub_get_def)
  have o2: "page_outcome drained_pages 2 = Inl (External ''connection reset'')"
    by (simp add: page_outcome_def drained_pages_def)
  from page_jobs_deliver [OF firstReq_drained_pages _ drained_pages_run] rd cl
  have all: "\<forall>k. 1 \<le> k \<and> k \<le> nat 2 \<longrightarrow>
      from_page k (delivered drained_pages_final) = decoded drained_pages k
      \<and> from_page k (errors drained_pages_final)
          = (case page_outcome drained_pages k of Inl e \<Rightarrow> [e] | Inr os \<Rightarrow> [])"
    by simp
  from all have "from_page 1 (delivered drained_pages_final) = decoded drained_pages 1"
    by simp
  moreover from all have "from_page 2 (errors drained_pages_final)
      = (case page_outcome drained_pages 2 of Inl e \<Rightarrow> [e] | Inr os \<Rightarrow> [])"
    by simp
  ultimately show ?thesis using drained_pages_run rd cl d1 o2 by (intro conjI) simp_all
qed

subsection \<open>When the channels are closed\<close>

text \<open>
  Claim C3, as the claim states it, fails: two pages read by \<open>collect\<close>, page 1 does not
  decode. The run got past the first request; after \<open>collect\<close> has returned the error no
  step is left, the job of page 2 stands at its send, the counter is 1 and neither channel
  has been closed, nor will it be.
\<close>

theorem channels_closed_once_counterexample:
  "firstReq failing_pages
     = FirstOk 2 \<lparr>link_header = link_value url_page_2 ''last'', body = ''[]''\<rparr>
   \<and> run failing_pages [Fetch 1, Fetch 2, SendErr 1, Exit 1] (channel failing_pages)
     = Some failing_pages_final
   \<and> enabled failing_pages failing_pages_final = []
   \<and> wg failing_pages_final = 1
   \<and> closer failing_pages_final = Waiting
   \<and> \<not> objects_closed failing_pages_final
   \<and> \<not> errs_closed failing_pages_final"
proof (intro conjI)
  show "wg failing_pages_final = 1" "closer failing_pages_final = Waiting"
    "\<not> objects_closed failing_pages_final" "\<not> errs_closed failing_pages_final"
    by (simp_all add: failing_pages_final_def objects_closed_def errs_closed_def)
qed (rule firstReq_failing_pages failing_pages_run failing_pages_stuck)+

text \<open>
  Claim C3, amended. Let the first response advertise \<open>last\<close> page \<open>n \<ge> 1\<close>; take any
  reader and any schedule. The counter starts at \<open>n\<close> with all \<open>n\<close> jobs still to run.
  Each channel is closed at most once: the schedule holds one close of a channel when the
  channel is closed and none when it is open, and the error channel is closed only after
  the object channel. A close can only be taken when the counter is zero and every job
  has finished, and it stays so while a channel is closed. When the reader keeps
  receiving from both channels, both are closed exactly once: while the error channel is
  open a step that is not an idle receive of nil can be taken, and a schedule holds at
  most \<open>remaining\<close> such steps.
\<close>

theorem channels_closed_once:
  assumes first: "firstReq p = FirstOk n resp" and n: "1 \<le> n"
    and run: "run p as (channel p) = Some s"
  shows "wg (channel p) = n \<and> jobs (channel p) = replicate (nat n) Pending
       \<and> count_list as CloseObjects = (if objects_closed s then 1 else 0)
       \<and> count_list as CloseErrs = (if errs_closed s then 1 else 0)
       \<and> (errs_closed s \<longrightarrow> objects_closed s)
       \<and> (objects_closed s \<longrightarrow>
            wg s = 0 \<and> length (jobs s) = nat n \<and> list_all (\<lambda>j. j = Finished) (jobs s))
       \<and> (\<forall>a s'. exec p a s = Some s' \<and> (a = CloseObjects \<or> a = CloseErrs) \<longrightarrow>
            wg s = 0 \<and> list_all (\<lambda>j. j = Finished) (jobs s))
       \<and> (reader p = Drain \<longrightarrow>
            (\<not> errs_closed s \<longrightarrow>
               (\<exists>a s'. a \<noteq> RecvErrClosed \<and> a \<noteq> RecvObjClosed \<and> exec p a s = Some s'))
            \<and> length (filter (\<lambda>a. a \<noteq> RecvErrClosed \<and> a \<noteq> RecvObjClosed) as)
                 \<le> remaining p (channel p))"
proof -
  note init = channel_ok [OF first n]
  have inv: "engine_inv p s"
    using init_inv [OF first n] run by (rule run_inv)
  have len: "length (jobs s) = nat n"
    using run_length_jobs [OF run] by (simp add: init)
  have fin: "wg s = 0 \<and> list_all (\<lambda>j. j = Finished) (jobs s)" if "unfinished s = 0"
  proof -
    from that have "filter (\<lambda>j. j \<noteq> Finished) (jobs s) = []"
      by (simp add: unfinished_def)
    then have "list_all (\<lambda>j. j = Finished) (jobs s)"
      by (simp add: filter_empty_conv list_all_iff)
    with inv that show ?thesis by (simp add: engine_inv_def)
  qed
  have a: "wg (channel p) = n" "jobs (channel p) = replicate (nat n) Pending"
    by (simp_all add: init)
  from run_close_counts [OF run]
  have b: "count_list as CloseObjects = (if objects_closed s then 1 else 0)"
    "count_list as CloseErrs = (if errs_closed s then 1 else 0)"
    by (simp_all add: init objects_closed_def errs_closed_def)
  have c: "errs_closed s \<longrightarrow> objects_closed s"
    by (simp add: objects_closed_def errs_closed_def)
  have d: "objects_closed s \<longrightarrow>
            wg s = 0 \<and> length (jobs s) = nat n \<and> list_all (\<lambda>j. j = Finished) (jobs s)"
  proof
    assume "objects_closed s"
    with inv have "unfinished s = 0" by (auto simp: objects_closed_def engine_inv_def)
    from fin [OF this] len
    show "wg s = 0 \<and> length (jobs s) = nat n \<and> list_all (\<lambda>j. j = Finished) (jobs s)"
      by simp
  qed
  have e: "wg s = 0 \<and> list_all (\<lambda>j. j = Finished) (jobs s)"
    if "exec p a s = Some s' \<and> (a = CloseObjects \<or> a = CloseErrs)" for a s'
  proof -
    from that have st: "exec p a s = Some s'" and cl: "a = CloseObjects \<or> a = CloseErrs"
      by simp_all
    from exec_closer(2,3) [OF st] cl have "wg s = 0 \<or> closer s = ClosedObjects" by auto
    with inv have "unfinished s = 0" by (auto simp: engine_inv_def)
    then show ?thesis by (rule fin)
  qed
  have f: "(\<not> errs_closed s \<longrightarrow>
               (\<exists>a s'. a \<noteq> RecvErrClosed \<and> a \<noteq> RecvObjClosed \<and> exec p a s = Some s'))
            \<and> length (filter (\<lambda>a. a \<noteq> RecvErrClosed \<and> a \<noteq> RecvObjClosed) as)
                 \<le> remaining p (channel p)"
    if rd: "reader p = Drain"
  proof (intro conjI impI)
    from drain_reach [OF first n rd run refl]
    have dr: "consumer s = Draining" and np: "\<not> panicked s" by simp_all
    {
      assume "\<not> errs_closed s"
      then have "closer s \<noteq> ClosedBoth" by (simp add: errs_closed_def)
      with inv np dr
      show "\<exists>a s'. a \<noteq> RecvErrClosed \<and> a \<noteq> RecvObjClosed \<and> exec p a s = Some s'"
        by (intro drain_progress)
    }
    have "consumer (channel p) = Draining"
      by (simp add: init rd start_def)
    from drain_run_bound [OF this run]
    show "length (filter (\<lambda>a. a \<noteq> RecvErrClosed \<and> a \<noteq> RecvObjClosed) as)
                 \<le> remaining p (channel p)"
      by simp
  qed
  show ?thesis
  proof (intro conjI)
    show "\<forall>a s'. exec p a s = Some s' \<and> (a = CloseObjects \<or> a = CloseErrs) \<longrightarrow>
            wg s = 0 \<and> list_all (\<lambda>j. j = Finished) (jobs s)"
      using e by blast
    show "reader p = Drain \<longrightarrow>
            (\<not> errs_closed s \<longrightarrow>
               (\<exists>a s'. a \<noteq> RecvErrClosed \<and> a \<noteq> RecvObjClosed \<and> exec p a s = Some s'))
            \<and> length (filter (\<lambda>a. a \<noteq> RecvErrClosed \<and> a \<noteq> RecvObjClosed) as)
                 \<le> remaining p (channel p)"
      using f by (rule impI)
  qed (rule a b c d)+
qed

theorem channels_closed_once_witness:
  "run drained_pages drained_pages_schedule (channel drained_pages)
     = Some drained_pages_final
   \<and> objects_closed drained_pages_final \<and> errs_closed drained_pages_final
   \<and> count_list drained_pages_schedule CloseObjects = 1
   \<and> count_list drained_pages_schedule CloseErrs = 1
   \<and> wg drained_pages_final = 0
   \<and> list_all (\<lambda>j. j = Finished) (jobs drained_pages_final)"
proof -
  have oc: "objects_closed drained_pages_final" "errs_closed drained_pages_final"
    by (simp_all add: drained_pages_final_def objects_closed_def errs_closed_def)
  from channels_closed_once [OF firstReq_drained_pages _ drained_pages_run] oc
  have "count_list drained_pages_schedule CloseObjects = 1"
    "count_list drained_pages_schedule CloseErrs = 1"
    "wg drained_pages_final = 0"
    "list_all (\<lambda>j. j = Finished) (jobs drained_pages_final)"
    by simp_all
  with drained_pages_run oc show ?thesis by (intro conjI)
qed

subsection \<open>A failed first request\<close>

text \<open>
  Claim C4, on the code. The first response has a Link header with a \<open>next\<close> link and no
  \<open>last\<close> link: \<open>firstReq\<close> fails with "could not find last page" after one call of the
  transport and no job is started, but \<open>channel()\<close> then stands at \<open>p.errs <- err\<close> with no
  goroutine to receive: no step can be taken, the error is not on the error stream and
  neither channel is closed.
\<close>

theorem no_last_page_blocks:
  "firstReq no_last_page = FirstErr CouldNotFindLastPage
   \<and> channel no_last_page = blocked_in_channel CouldNotFindLastPage
   \<and> gets (blocked_in_channel CouldNotFindLastPage) = 1
   \<and> jobs (blocked_in_channel CouldNotFindLastPage) = []
   \<and> enabled no_last_page (blocked_in_channel CouldNotFindLastPage) = []
   \<and> errors (blocked_in_channel CouldNotFindLastPage) = []
   \<and> \<not> objects_closed (blocked_in_channel CouldNotFindLastPage)
   \<and> \<not> errs_closed (blocked_in_channel CouldNotFindLastPage)"
proof (intro conjI)
  show "firstReq no_last_page = FirstErr CouldNotFindLastPage"
    by (rule firstReq_no_last_page)
  show "channel no_last_page = blocked_in_channel CouldNotFindLastPage"
    by (simp add: channel_def firstReq_no_last_page blocked_in_channel_def)
  show "enabled no_last_page (blocked_in_channel CouldNotFindLastPage) = []"
    by (simp add: enabled_def candidates_def blocked_in_channel_def step_eval
        first_err_send_def)
qed (simp_all add: blocked_in_channel_def objects_closed_def errs_closed_def)

text \<open>
  Claim C5, on the code. The transport fails on the first request: \<open>firstReq\<close> returns its
  error after that one call and no job is started, but \<open>channel()\<close> then stands at
  \<open>p.errs <- err\<close> with no goroutine to receive: no step can be taken, so the error is
  never pushed, the channels are never closed and \<open>channel()\<close> does not return.
\<close>

theorem transport_failure_blocks:
  "firstReq refused = FirstErr (External ''connection refused'')
   \<and> channel refused = blocked_in_channel (External ''connection refused'')
   \<and> gets (blocked_in_channel (External ''connection refused'')) = 1
   \<and> jobs (blocked_in_channel (External ''connection refused'')) = []
   \<and> enabled refused (blocked_in_channel (External ''connection refused'')) = []
   \<and> errors (blocked_in_channel (External ''connection refused'')) = []
   \<and> \<not> objects_closed (blocked_in_channel (External ''connection refused''))
   \<and> \<not> errs_closed (blocked_in_channel (External ''connection refused''))"
proof (intro conjI)
  show "firstReq refused = FirstErr (External ''connection refused'')"
    by (rule firstReq_refused)
  show "channel refused = blocked_in_channel (External ''connection refused'')"
    by (simp add: channel_def firstReq_refused blocked_in_channel_def)
  show "enabled refused (blocked_in_channel (External ''connection refused'')) = []"
    by (simp add: enabled_def candidates_def blocked_in_channel_def step_eval
        first_err_send_def)
qed (simp_all add: blocked_in_channel_def objects_closed_def errs_closed_def)

subsection \<open>The list of steps that can be taken is complete\<close>

lemma enabled_complete: "exec p a s = Some s' \<Longrightarrow> a \<in> set (enabled p s)"
proof -
  assume st: "exec p a s = Some s'"
  have "a \<in> set (candidates s)"
  proof (cases a)
    case (Fetch k)
    with st have "fetch p k s = Some s'" by (simp add: exec_def split: if_splits)
    from fetch_Some [OF this] have "1 \<le> k \<and> k \<le> length (jobs s)"
      by (simp add: job_at_Some)
    with Fetch show ?thesis by (auto simp: candidates_def)
  next
    case (SendObj k)
    with st have "send_obj k s = Some s'" by (simp add: exec_def split: if_splits)
    from send_obj_Some [OF this] have "1 \<le> k \<and> k \<le> length (jobs s)"
      by (auto simp: job_at_Some)
    with SendObj show ?thesis by (auto simp: candidates_def)
  next
    case (SendErr k)
    with st have "send_err p k s = Some s'" by (simp add: exec_def split: if_splits)
    from send_err_Some [OF this] have "1 \<le> k \<and> k \<le> length (jobs s)"
      by (auto simp: job_at_Some)
    with SendErr show ?thesis by (auto simp: candidates_def)
  next
    case (Exit k)
    with st have "exit_job k s = Some s'" by (simp add: exec_def split: if_splits)
    from exit_job_Some [OF this] have "1 \<le> k \<and> k \<le> length (jobs s)"
      by (auto simp: job_at_Some)
    with Exit show ?thesis by (auto simp: candidates_def)
  qed (simp_all add: candidates_def)
  with st show ?thesis by (simp add: enabled_def)
qed

lemma stuck_no_step: "enabled p s = [] \<Longrightarrow> exec p a s = None"
  using enabled_complete [of p a s] by (cases "exec p a s") auto














subsection \<open>An adapter after the quit signal\<close>













end
